theory Spec2Isabelle
  imports Complex_Main
begin

section \<open>Python values\<close>

text \<open>
  Python \<open>str\<close> values whose length and whitespace matter (the text an analyzer extracts)
  are lists of Unicode code points, so that \<open>length\<close> is Python's \<open>len\<close>. Strings that the
  code only compares for equality (URLs, hex digests, tier names, reasons) are \<open>string\<close>.
  Screenshot bytes are a list of 8-bit characters. A Python float (a confidence) is the
  real number it denotes, NaN and the infinities apart: comparison of floats is then the
  order of the reals. The float sum of a list and float division round, and are operations of
  the interpreter (see \<open>env\<close> below); a float literal denotes the nearest double, written
  out here for the literals \<open>0.9\<close>, \<open>0.65\<close> and \<open>0.3\<close>.
\<close>

type_synonym ustr = "nat list"
type_synonym bytes = "char list"

abbreviation float_0_9 :: real where
  "float_0_9 \<equiv> 8106479329266893 / 9007199254740992"

abbreviation float_0_65 :: real where
  "float_0_65 \<equiv> 5854679515581645 / 9007199254740992"

abbreviation float_0_3 :: real where
  "float_0_3 \<equiv> 5404319552844595 / 18014398509481984"

text \<open>The code points for which \<open>str.isspace\<close> holds and which \<open>str.strip()\<close> removes.\<close>

definition py_isspace :: "nat \<Rightarrow> bool" where
  "py_isspace c \<longleftrightarrow>
     (9 \<le> c \<and> c \<le> 13) \<or> (28 \<le> c \<and> c \<le> 32) \<or> c = 133 \<or> c = 160 \<or> c = 5760 \<or>
     (8192 \<le> c \<and> c \<le> 8202) \<or> c = 8232 \<or> c = 8233 \<or> c = 8239 \<or> c = 8287 \<or> c = 12288"

definition py_strip :: "ustr \<Rightarrow> ustr" where
  "py_strip s = rev (dropWhile py_isspace (rev (dropWhile py_isspace s)))"

text \<open>\<open>sep.join(xs)\<close>.\<close>

fun py_join :: "ustr \<Rightarrow> ustr list \<Rightarrow> ustr" where
  "py_join sep [] = []"
| "py_join sep [x] = x"
| "py_join sep (x # y # ys) = x @ sep @ py_join sep (y # ys)"

text \<open>\<open>s or ""\<close> on an optional string (a NULL column, a missing key).\<close>

definition or_empty :: "'a list option \<Rightarrow> 'a list" where
  "or_empty v = (case v of None \<Rightarrow> [] | Some s \<Rightarrow> s)"

text \<open>
  Exceptions. \<open>OperationalError\<close> and \<open>IntegrityError\<close> are the two \<open>sqlite3\<close> errors the
  store's own statements can cause (malformed SQL, a violated primary key); \<open>External\<close> is
  whatever an outside collaborator raises (the detector, the HTTP client, the caller's
  callback), tagged by a name. Failures of the storage medium itself are not modelled.
\<close>

datatype exn = OperationalError | IntegrityError | External string

section \<open>footprints.py: the fingerprint store\<close>

text \<open>
  The TEXT columns of table \<open>pages\<close> that \<open>upsert\<close> can be given as keyword arguments.
  The key \<open>url\<close> is the positional parameter; \<open>first_seen\<close> and \<open>last_seen\<close> are written by
  \<open>upsert\<close> itself and are not accepted as keywords in this model.
\<close>

datatype column =
  C_canonical_url | C_last_model | C_screenshot_sha | C_text_sha_paddle | C_text_sha_azure
  | C_etag | C_last_modified | C_notes

text \<open>One row of \<open>pages\<close> without its key; \<open>None\<close> is SQL NULL.\<close>

record page_row =
  r_first_seen :: "int option"
  r_last_seen :: "int option"
  r_cols :: "column \<Rightarrow> string option"

text \<open>
  One row of \<open>escalations\<close>. The \<open>info\<close> payload is kept structured (the two entries the
  router passes); its JSON rendering and the cut at 2000 characters are not modelled.
\<close>

record escalation_row =
  esc_ts :: int
  esc_url :: string
  esc_from_model :: string
  esc_to_model :: string
  esc_reason :: string
  esc_conf :: real
  esc_chars :: int

record run_row =
  run_skipped_nochange :: int
  run_used_cheap_ocr :: int
  run_escalated_to_gemini :: int

record PageFP =
  url :: string
  screenshot_sha :: string
  text_sha_paddle :: string
  text_sha_azure :: string
  last_model :: string
  canonical_url :: string
  etag :: string
  last_modified :: string
  last_seen :: int

text \<open>
  The database: \<open>pages\<close> keyed by \<open>url\<close> (PRIMARY KEY), \<open>escalations\<close> without a key (rows in
  insertion order), \<open>runs\<close> keyed by \<open>ts\<close> (INTEGER PRIMARY KEY).
\<close>

record Footprints =
  pages :: "string \<rightharpoonup> page_row"
  escalations :: "escalation_row list"
  runs :: "int \<rightharpoonup> run_row"

definition get :: "Footprints \<Rightarrow> string \<Rightarrow> PageFP option" where
  "get db u =
     (case pages db u of
        None \<Rightarrow> None
      | Some row \<Rightarrow>
          Some \<lparr>url = u,
                screenshot_sha = or_empty (r_cols row C_screenshot_sha),
                text_sha_paddle = or_empty (r_cols row C_text_sha_paddle),
                text_sha_azure = or_empty (r_cols row C_text_sha_azure),
                last_model = or_empty (r_cols row C_last_model),
                canonical_url = or_empty (r_cols row C_canonical_url),
                etag = or_empty (r_cols row C_etag),
                last_modified = or_empty (r_cols row C_last_modified),
                last_seen = (case r_last_seen row of None \<Rightarrow> 0 | Some t \<Rightarrow> t)\<rparr>)"

text \<open>\<open>SET k1=?, k2=?, ...\<close>: the assignments of a keyword dictionary, in its order.\<close>

definition assign :: "(column \<times> string option) list \<Rightarrow> (column \<Rightarrow> string option)
    \<Rightarrow> (column \<Rightarrow> string option)" where
  "assign kvs f = fold (\<lambda>(k, v) g. g(k := v)) kvs f"

text \<open>
  \<open>upsert(url, **kvs)\<close> at clock reading \<open>now\<close>. Keywords whose value is \<open>None\<close> are dropped.
  On an existing row the statement is \<open>UPDATE pages SET <sets>, last_seen=? WHERE url=?\<close>;
  with no keyword left, \<open><sets>\<close> is empty and the statement \<open>UPDATE pages SET , last_seen=?\<close>
  is malformed, which \<open>sqlite3\<close> reports as an \<open>OperationalError\<close>. Otherwise the row is
  inserted with \<open>first_seen = last_seen = now\<close>, the given columns, and NULL elsewhere.
\<close>

definition upsert :: "int \<Rightarrow> string \<Rightarrow> (column \<times> string option) list \<Rightarrow> Footprints
    \<Rightarrow> exn + Footprints" where
  "upsert now u kvs0 db =
     (let kvs = filter (\<lambda>(k, v). v \<noteq> None) kvs0 in
      case get db u of
        Some existing \<Rightarrow>
          if kvs = [] then Inl OperationalError
          else Inr (db\<lparr>pages := (pages db)(u :=
                  map_option (\<lambda>row. row\<lparr>r_cols := assign kvs (r_cols row),
                                            r_last_seen := Some now\<rparr>) (pages db u))\<rparr>)
      | None \<Rightarrow>
          (case pages db u of
             Some clash \<Rightarrow> Inl IntegrityError
           | None \<Rightarrow>
               Inr (db\<lparr>pages := (pages db)(u \<mapsto>
                  \<lparr>r_first_seen = Some now, r_last_seen = Some now,
                   r_cols = assign kvs (\<lambda>c. None)\<rparr>)\<rparr>)))"

definition record_escalation :: "int \<Rightarrow> string \<Rightarrow> string \<Rightarrow> string \<Rightarrow> string \<Rightarrow> real \<times> int
    \<Rightarrow> Footprints \<Rightarrow> Footprints" where
  "record_escalation now u from_model to_model reason info db =
     db\<lparr>escalations := escalations db @
        [\<lparr>esc_ts = now, esc_url = u, esc_from_model = from_model, esc_to_model = to_model,
          esc_reason = reason, esc_conf = fst info, esc_chars = snd info\<rparr>]\<rparr>"

text \<open>
  \<open>record_run_summary\<close> at clock reading \<open>now\<close> (\<open>int(time.time())\<close>, whole seconds). The
  INSERT names \<open>ts\<close>, the table's INTEGER PRIMARY KEY, explicitly: a row with the same \<open>ts\<close>
  makes the statement fail with an \<open>IntegrityError\<close> and nothing is written.
\<close>

definition record_run_summary :: "int \<Rightarrow> int \<Rightarrow> int \<Rightarrow> int \<Rightarrow> Footprints \<Rightarrow> exn + Footprints" where
  "record_run_summary now skipped used_ocr escalated db =
     (case runs db now of
        Some clash \<Rightarrow> Inl IntegrityError
      | None \<Rightarrow>
          Inr (db\<lparr>runs := (runs db)(now \<mapsto>
             \<lparr>run_skipped_nochange = skipped, run_used_cheap_ocr = used_ocr,
              run_escalated_to_gemini = escalated\<rparr>)\<rparr>))"

section \<open>vision_ocr.py: hashing and the two analyzers\<close>

text \<open>
  What the call reads from outside the program: the clock (\<open>clock k\<close> is the \<open>k\<close>-th
  reading of \<open>int(time.time())\<close> taken by the store during the call), the two digests of
  \<open>hashlib\<close> (\<open>sha1_hex\<close> on bytes, \<open>sha256_hex\<close> on the UTF-8 encoding of a string), the
  Unicode tables behind \<open>str.lower\<close> and \<open>str.isalnum\<close>, the interpreter's float
  arithmetic (\<open>float_sum\<close> is the builtin \<open>sum\<close> on a list of floats, \<open>float_div\<close> the
  division \<open>/\<close>; both round their result and neither is interpreted here), and the two
  detectors:
  \<open>paddle_ocr\<close> is image decoding followed by \<open>PaddleOCR.ocr\<close>, \<open>azure_post\<close> is the HTTP
  request with \<open>raise_for_status\<close> and \<open>json()\<close>. Either detector may raise.
\<close>

type_synonym paddle_line = "(ustr \<times> real) option"
type_synonym paddle_result = "paddle_line list option list option"

record azure_line =
  ln_text :: "ustr option"
  ln_words :: "real option list option"

type_synonym azure_data = "azure_line list option list option"

record env =
  clock :: "nat \<Rightarrow> int"
  sha1_hex :: "bytes \<Rightarrow> string"
  sha256_hex :: "ustr \<Rightarrow> string"
  py_lower :: "ustr \<Rightarrow> ustr"
  py_isalnum :: "nat \<Rightarrow> bool"
  float_sum :: "real list \<Rightarrow> real"
  float_div :: "real \<Rightarrow> real \<Rightarrow> real"
  paddle_ocr :: "bytes \<Rightarrow> exn + paddle_result"
  azure_post :: "bytes \<Rightarrow> exn + azure_data"

text \<open>The analyzer output; \<open>ocr_text\<close> is the field \<open>text\<close>. The diagnostics in \<open>extra\<close>
  (latency, line count, size of the raw response) are read nowhere and are left out.\<close>

record OCRText =
  ocr_text :: ustr
  confidence :: real
  model :: string

text \<open>\<open>s.split()\<close>: the maximal runs of non-whitespace; \<open>w\<close> is the run being read.\<close>

fun py_split_from :: "ustr \<Rightarrow> ustr \<Rightarrow> ustr list" where
  "py_split_from w [] = (if w = [] then [] else [w])"
| "py_split_from w (c # cs) =
     (if py_isspace c then (if w = [] then py_split_from [] cs else w # py_split_from [] cs)
      else py_split_from (w @ [c]) cs)"

definition normalize_text :: "env \<Rightarrow> ustr \<Rightarrow> ustr" where
  "normalize_text E s =
     py_join [32]
       (py_split_from []
          (filter (\<lambda>ch. py_isalnum E ch \<or> py_isspace ch \<or> ch \<in> set [45, 95, 47, 46, 58, 64])
             (py_lower E s)))"

definition text_sha :: "env \<Rightarrow> ustr \<Rightarrow> string" where
  "text_sha E s = sha256_hex E (normalize_text E s)"

definition img_sha :: "env \<Rightarrow> bytes \<Rightarrow> string" where
  "img_sha E img_bytes = sha1_hex E img_bytes"

text \<open>
  The expression \<open>sum(confs)/len(confs)\<close>: the float sum of the list, divided in float
  arithmetic by its length.
\<close>

definition float_mean :: "env \<Rightarrow> real list \<Rightarrow> real" where
  "float_mean E confs = float_div E (float_sum E confs) (real (length confs))"

text \<open>
  \<open>PaddleClient.run\<close>. A detector line is \<open>[bbox, (text, score)]\<close>; \<open>None\<close> stands for a line
  that is falsy or whose second entry is, where the code takes \<open>txt = ""\<close>. The two nested
  loops thread the pair \<open>(lines, confs)\<close>.
\<close>

definition paddle_line_step :: "paddle_line \<Rightarrow> ustr list \<times> real list \<Rightarrow> ustr list \<times> real list" where
  "paddle_line_step line acc =
     (let txt = (case line of Some (t, s) \<Rightarrow> t | None \<Rightarrow> []);
          score = (case line of Some (t, s) \<Rightarrow> s | None \<Rightarrow> 0)
      in if txt \<noteq> [] then (fst acc @ [txt], snd acc @ [score]) else acc)"

definition paddle_collect :: "paddle_result \<Rightarrow> ustr list \<times> real list" where
  "paddle_collect result =
     fold (\<lambda>block acc. fold paddle_line_step (case block of None \<Rightarrow> [] | Some ls \<Rightarrow> ls) acc)
       (case result of None \<Rightarrow> [] | Some bs \<Rightarrow> bs) ([], [])"

definition paddle_text :: "env \<Rightarrow> paddle_result \<Rightarrow> OCRText" where
  "paddle_text E result =
     (let lines = fst (paddle_collect result); confs = snd (paddle_collect result) in
      \<lparr>ocr_text = py_strip (py_join [10] lines),
       confidence = (if confs \<noteq> [] then float_mean E confs else 0),
       model = ''paddle''\<rparr>)"

definition PaddleClient_run :: "env \<Rightarrow> bytes \<Rightarrow> exn + OCRText" where
  "PaddleClient_run E image_bytes =
     (case paddle_ocr E image_bytes of Inl e \<Rightarrow> Inl e | Inr result \<Rightarrow> Inr (paddle_text E result))"

text \<open>
  \<open>AzureVisionClient.run\<close>. The response is reduced to \<open>readResult.blocks\<close> (\<open>None\<close> where a
  level is missing or falsy); a word is \<open>Some c\<close> when it has the key \<open>confidence\<close>.
\<close>

definition azure_line_step :: "azure_line \<Rightarrow> ustr list \<times> real list \<Rightarrow> ustr list \<times> real list" where
  "azure_line_step line acc =
     (let txt = py_strip (or_empty (ln_text line));
          lines = (if txt \<noteq> [] then fst acc @ [txt] else fst acc);
          w_confs = List.map_filter (\<lambda>w. w) (or_empty (ln_words line))
      in (lines, if w_confs \<noteq> [] then snd acc @ w_confs else snd acc))"

definition azure_collect :: "azure_data \<Rightarrow> ustr list \<times> real list" where
  "azure_collect data =
     fold (\<lambda>blk acc. fold azure_line_step (or_empty blk) acc) (or_empty data) ([], [])"

definition azure_text :: "env \<Rightarrow> azure_data \<Rightarrow> OCRText" where
  "azure_text E data =
     (let lines = fst (azure_collect data); confs = snd (azure_collect data);
          txt = py_strip (py_join [10] lines) in
      \<lparr>ocr_text = txt,
       confidence = (if confs \<noteq> [] then float_mean E confs
                     else if txt \<noteq> [] then float_0_9 else 0),
       model = ''azure''\<rparr>)"

definition AzureVisionClient_run :: "env \<Rightarrow> bytes \<Rightarrow> exn + OCRText" where
  "AzureVisionClient_run E image_bytes =
     (case azure_post E image_bytes of Inl e \<Rightarrow> Inl e | Inr data \<Rightarrow> Inr (azure_text E data))"

section \<open>vision_router.py: the escalation router\<close>

record RouterConfig =
  enable_paddle :: bool
  enable_azure :: bool
  enable_gemini :: bool
  order :: "string list"
  min_chars_for_confidence :: int
  min_confidence :: real

text \<open>\<open>__post_init__\<close>: a missing or empty order becomes the default one.\<close>

definition post_init :: "RouterConfig \<Rightarrow> RouterConfig" where
  "post_init c = (if order c = [] then c\<lparr>order := [''paddle'', ''azure'', ''gemini'']\<rparr> else c)"

record VisionRouter =
  fp :: Footprints
  cfg :: RouterConfig
  skipped_nochange :: int
  used_cheap_ocr :: int
  escalated_to_gemini :: int

definition needs_escalation :: "env \<Rightarrow> RouterConfig \<Rightarrow> OCRText \<Rightarrow> string \<Rightarrow> bool" where
  "needs_escalation E c ocr prev_text_sha =
     (if py_strip (ocr_text ocr) = [] then True
      else if int (length (ocr_text ocr)) < min_chars_for_confidence c then True
      else if confidence ocr < min_confidence c then True
      else if prev_text_sha \<noteq> [] \<and> text_sha E (ocr_text ocr) \<noteq> prev_text_sha then True
      else False)"

text \<open>
  The five \<open>return\<close> statements of \<open>check_or_escalate\<close>, and the dictionary each one returns.
  \<open>ChangedOcr\<close> carries the value of \<open>last_stage or "ocr"\<close>; \<open>d_fields\<close> is the entry
  \<open>"fields"\<close>.
\<close>

datatype exit =
  SkipNoChange | OkTier string | Extract "(string \<times> string) list" | ChangedOcr string | Noop

record decision =
  status :: string
  changed :: bool
  d_fields :: "(string \<times> string) list"

fun decision_of :: "exit \<Rightarrow> decision" where
  "decision_of SkipNoChange = \<lparr>status = ''skipped'', changed = False, d_fields = []\<rparr>"
| "decision_of (OkTier name) = \<lparr>status = name, changed = False, d_fields = []\<rparr>"
| "decision_of (Extract fs) = \<lparr>status = ''gemini'', changed = True, d_fields = fs\<rparr>"
| "decision_of (ChangedOcr name) = \<lparr>status = name, changed = True, d_fields = []\<rparr>"
| "decision_of Noop = \<lparr>status = ''noop'', changed = True, d_fields = []\<rparr>"

text \<open>
  The caller's callback, by what calling it does: raise, or return a dictionary or a falsy
  value (\<open>None\<close>). It does not touch the router or the store.
\<close>

type_synonym callback = "exn + (string \<times> string) list option"

text \<open>
  The local variables of the tier walk, with the router they mutate. \<open>tick\<close> is not a
  variable of the source: it counts the clock readings the store has taken so far in the
  call, so that each write gets its own reading of \<open>int(time.time())\<close>. The dictionary
  \<open>text_shas\<close> is only written and is left out.
\<close>

record walk_state =
  w_router :: VisionRouter
  ocr_used :: bool
  last_stage :: "string option"
  tick :: nat

datatype outcome = Next walk_state | Done "exn + exit" VisionRouter

text \<open>
  Lines 78-88 and 90-100: the paddle block and the azure block are the same code with the
  tier's name, client, hash column and previous hash exchanged. A raised exception leaves
  the router as it is at that point.
\<close>

definition ocr_tier :: "env \<Rightarrow> string \<Rightarrow> (bytes \<Rightarrow> exn + OCRText) \<Rightarrow> column \<Rightarrow> string
    \<Rightarrow> string \<Rightarrow> bytes \<Rightarrow> string \<Rightarrow> walk_state \<Rightarrow> outcome" where
  "ocr_tier E name run col prev_sha u shot_bytes shot_sha w =
     (let r = w_router w in
      case run shot_bytes of
        Inl e \<Rightarrow> Done (Inl e) r
      | Inr ocr \<Rightarrow>
          (case upsert (clock E (tick w)) u
                  [(C_screenshot_sha, Some shot_sha), (col, Some (text_sha E (ocr_text ocr))),
                   (C_last_model, Some name)] (fp r) of
             Inl e \<Rightarrow> Done (Inl e) r
           | Inr db1 \<Rightarrow>
               if \<not> needs_escalation E (cfg r) ocr prev_sha
               then Done (Inr (OkTier name)) (r\<lparr>fp := db1, used_cheap_ocr := used_cheap_ocr r + 1\<rparr>)
               else Next (w\<lparr>w_router := r\<lparr>fp :=
                              record_escalation (clock E (tick w + 1)) u name ''next''
                                ''low_conf_or_changed''
                                (confidence ocr, int (length (ocr_text ocr))) db1\<rparr>,
                            ocr_used := True, tick := tick w + 2\<rparr>)))"

text \<open>Lines 102-110.\<close>

definition gemini_tier :: "env \<Rightarrow> callback option \<Rightarrow> string \<Rightarrow> string \<Rightarrow> walk_state \<Rightarrow> outcome" where
  "gemini_tier E on_need_gemini u shot_sha w =
     (let r = (w_router w)\<lparr>escalated_to_gemini := escalated_to_gemini (w_router w) + 1\<rparr> in
      case (case on_need_gemini of
              Some cb \<Rightarrow> (case cb of Inl e \<Rightarrow> Inl e | Inr res \<Rightarrow> Inr (or_empty res))
            | None \<Rightarrow> Inr []) of
        Inl e \<Rightarrow> Done (Inl e) r
      | Inr fs \<Rightarrow>
          (case upsert (clock E (tick w)) u
                  [(C_screenshot_sha, Some shot_sha), (C_last_model, Some ''gemini'')] (fp r) of
             Inl e \<Rightarrow> Done (Inl e) r
           | Inr db1 \<Rightarrow> Done (Inr (Extract fs)) (r\<lparr>fp := db1\<rparr>)))"

text \<open>One iteration of \<open>for stage in self.cfg.order\<close>: three \<open>if\<close> statements in sequence.\<close>

definition stage_body :: "env \<Rightarrow> string \<Rightarrow> bytes \<Rightarrow> string \<Rightarrow> string \<Rightarrow> string
    \<Rightarrow> callback option \<Rightarrow> string \<Rightarrow> walk_state \<Rightarrow> outcome" where
  "stage_body E u shot_bytes shot_sha prev_paddle_sha prev_azure_sha on_need_gemini stage w0 =
     (let w = w0\<lparr>last_stage := Some stage\<rparr> in
      case (if stage = ''paddle'' \<and> enable_paddle (cfg (w_router w))
            then ocr_tier E ''paddle'' (PaddleClient_run E) C_text_sha_paddle prev_paddle_sha
                   u shot_bytes shot_sha w
            else Next w) of
        Done res r \<Rightarrow> Done res r
      | Next w1 \<Rightarrow>
          (case (if stage = ''azure'' \<and> enable_azure (cfg (w_router w1))
                 then ocr_tier E ''azure'' (AzureVisionClient_run E) C_text_sha_azure
                        prev_azure_sha u shot_bytes shot_sha w1
                 else Next w1) of
             Done res r \<Rightarrow> Done res r
           | Next w2 \<Rightarrow>
               if stage = ''gemini'' \<and> enable_gemini (cfg (w_router w2))
               then gemini_tier E on_need_gemini u shot_sha w2
               else Next w2))"

text \<open>The loop, and lines 112-119 once the order is exhausted.\<close>

fun walk :: "env \<Rightarrow> string \<Rightarrow> bytes \<Rightarrow> string \<Rightarrow> string \<Rightarrow> string \<Rightarrow> callback option
    \<Rightarrow> string list \<Rightarrow> walk_state \<Rightarrow> (exn + exit) \<times> VisionRouter" where
  "walk E u shot_bytes shot_sha pp pa cb [] w =
     (if ocr_used w
      then (Inr (ChangedOcr (case last_stage w of
                               None \<Rightarrow> ''ocr''
                             | Some s \<Rightarrow> if s = [] then ''ocr'' else s)), w_router w)
      else (Inr Noop, w_router w))"
| "walk E u shot_bytes shot_sha pp pa cb (stage # rest) w =
     (case stage_body E u shot_bytes shot_sha pp pa cb stage w of
        Done res r \<Rightarrow> (res, r)
      | Next w' \<Rightarrow> walk E u shot_bytes shot_sha pp pa cb rest w')"

text \<open>
  The loop alone: \<open>Next\<close> with the local variables it leaves when every stage of the order
  has been visited and none returned or raised, which is when lines 112-119 are reached.
\<close>

fun run_stages :: "env \<Rightarrow> string \<Rightarrow> bytes \<Rightarrow> string \<Rightarrow> string \<Rightarrow> string \<Rightarrow> callback option
    \<Rightarrow> string list \<Rightarrow> walk_state \<Rightarrow> outcome" where
  "run_stages E u shot_bytes shot_sha pp pa cb [] w = Next w"
| "run_stages E u shot_bytes shot_sha pp pa cb (stage # rest) w =
     (case stage_body E u shot_bytes shot_sha pp pa cb stage w of
        Done res r \<Rightarrow> Done res r
      | Next w' \<Rightarrow> run_stages E u shot_bytes shot_sha pp pa cb rest w')"

text \<open>
  \<open>check_or_escalate\<close>, first by the \<open>return\<close> statement reached, then as the dictionary
  returned. The result is paired with the router after the call, also when the call raises.
\<close>

definition check_or_escalate_exit :: "env \<Rightarrow> VisionRouter \<Rightarrow> string \<Rightarrow> bytes
    \<Rightarrow> (string \<times> string) list option \<Rightarrow> callback option \<Rightarrow> (exn + exit) \<times> VisionRouter" where
  "check_or_escalate_exit E r u screenshot_bytes previous_fp on_need_gemini =
     (let prev = get (fp r) u;
          prev_paddle_sha = (case prev of Some p \<Rightarrow> text_sha_paddle p | None \<Rightarrow> []);
          prev_azure_sha = (case prev of Some p \<Rightarrow> text_sha_azure p | None \<Rightarrow> []);
          shot_sha = img_sha E screenshot_bytes
      in if (case prev of Some p \<Rightarrow> screenshot_sha p = shot_sha | None \<Rightarrow> False)
         then (let r1 = r\<lparr>skipped_nochange := skipped_nochange r + 1\<rparr> in
               case upsert (clock E 0) u [(C_screenshot_sha, Some shot_sha)] (fp r1) of
                 Inl e \<Rightarrow> (Inl e, r1)
               | Inr db1 \<Rightarrow> (Inr SkipNoChange, r1\<lparr>fp := db1\<rparr>))
         else walk E u screenshot_bytes shot_sha prev_paddle_sha prev_azure_sha on_need_gemini
                (order (cfg r))
                \<lparr>w_router = r, ocr_used = False, last_stage = None, tick = 0\<rparr>)"

definition check_or_escalate :: "env \<Rightarrow> VisionRouter \<Rightarrow> string \<Rightarrow> bytes
    \<Rightarrow> (string \<times> string) list option \<Rightarrow> callback option \<Rightarrow> (exn + decision) \<times> VisionRouter" where
  "check_or_escalate E r u screenshot_bytes previous_fp on_need_gemini =
     (case check_or_escalate_exit E r u screenshot_bytes previous_fp on_need_gemini of
        (res, r') \<Rightarrow> (map_sum (\<lambda>e. e) decision_of res, r'))"

definition summary :: "VisionRouter \<Rightarrow> int \<times> int \<times> int" where
  "summary r = (skipped_nochange r, used_cheap_ocr r, escalated_to_gemini r)"

subsection \<open>The caller: one router over a batch of URLs\<close>

text \<open>
  The rescrape loop of \<open>imagescrape1.py\<close> builds one router and calls \<open>check_or_escalate\<close>
  once per URL, catching whatever a call raises before it goes on to the next URL. Each
  call comes with what the outside world does during it (\<open>c_env\<close>) and with the caller's
  callback. The results are kept by the \<open>return\<close> statement reached.
\<close>

record call =
  c_env :: env
  c_url :: string
  c_bytes :: bytes
  c_previous_fp :: "(string \<times> string) list option"
  c_callback :: "callback option"

fun run_calls :: "VisionRouter \<Rightarrow> call list \<Rightarrow> (exn + exit) list \<times> VisionRouter" where
  "run_calls r [] = ([], r)"
| "run_calls r (c # cs) =
     (case check_or_escalate_exit (c_env c) r (c_url c) (c_bytes c) (c_previous_fp c) (c_callback c) of
        (res, r1) \<Rightarrow> (case run_calls r1 cs of (outs, r2) \<Rightarrow> (res # outs, r2)))"

section \<open>Notions of the specification\<close>

text \<open>
  The escalation predicate in the specification's words: the text is empty or blank, or
  shorter than \<open>min_chars_for_confidence\<close>, or the confidence is below \<open>min_confidence\<close>, or a
  previous hash for the tier exists and differs from the new one.
\<close>

definition spec_escalate :: "env \<Rightarrow> RouterConfig \<Rightarrow> OCRText \<Rightarrow> string \<Rightarrow> bool" where
  "spec_escalate E c ocr prev \<longleftrightarrow>
     list_all py_isspace (ocr_text ocr)
     \<or> int (length (ocr_text ocr)) < min_chars_for_confidence c
     \<or> confidence ocr < min_confidence c
     \<or> (prev \<noteq> [] \<and> text_sha E (ocr_text ocr) \<noteq> prev)"

text \<open>
  What the store holds for a URL before a call: the hash stored for a tier in the column of
  that tier (the empty string when the URL has no row or the row no value), and whether the
  stored screenshot hash is the hash of the new screenshot.
\<close>

definition prev_hash :: "Footprints \<Rightarrow> string \<Rightarrow> column \<Rightarrow> string" where
  "prev_hash db u col = (case pages db u of None \<Rightarrow> [] | Some row \<Rightarrow> or_empty (r_cols row col))"

definition screenshot_seen :: "env \<Rightarrow> Footprints \<Rightarrow> string \<Rightarrow> bytes \<Rightarrow> bool" where
  "screenshot_seen E db u b \<longleftrightarrow>
     (case pages db u of None \<Rightarrow> False
      | Some row \<Rightarrow> or_empty (r_cols row C_screenshot_sha) = img_sha E b)"

text \<open>
  The kinds of terminal decision that the run accounting counts, and the counter each one
  belongs to, as a triple in the order of \<open>summary\<close>.
\<close>

definition is_skip :: "exit \<Rightarrow> bool" where
  "is_skip x = (case x of SkipNoChange \<Rightarrow> True | _ \<Rightarrow> False)"

definition is_cheap :: "exit \<Rightarrow> bool" where
  "is_cheap x = (case x of OkTier name \<Rightarrow> True | _ \<Rightarrow> False)"

definition is_expensive :: "exit \<Rightarrow> bool" where
  "is_expensive x = (case x of Extract fs \<Rightarrow> True | _ \<Rightarrow> False)"

definition terminal :: "exit \<Rightarrow> bool" where
  "terminal x \<longleftrightarrow> is_skip x \<or> is_cheap x \<or> is_expensive x"

fun counts_of :: "exit \<Rightarrow> int \<times> int \<times> int" where
  "counts_of SkipNoChange = (1, 0, 0)"
| "counts_of (OkTier name) = (0, 1, 0)"
| "counts_of (Extract fs) = (0, 0, 1)"
| "counts_of (ChangedOcr name) = (0, 0, 0)"
| "counts_of Noop = (0, 0, 0)"

definition add3 :: "int \<times> int \<times> int \<Rightarrow> int \<times> int \<times> int \<Rightarrow> int \<times> int \<times> int" where
  "add3 x y = (fst x + fst y, fst (snd x) + fst (snd y), snd (snd x) + snd (snd y))"

text \<open>
  An analyzer tier runs when the walk reaches it and it is enabled; in a walk that visits
  the whole order, the tiers that ran are those entries of the order.
\<close>

definition tier_runs :: "RouterConfig \<Rightarrow> string \<Rightarrow> bool" where
  "tier_runs c stage \<longleftrightarrow>
     stage = ''paddle'' \<and> enable_paddle c \<or> stage = ''azure'' \<and> enable_azure c"

definition tiers_run :: "RouterConfig \<Rightarrow> string list" where
  "tiers_run c = filter (tier_runs c) (order c)"

text \<open>
  The reasons the specification lists for an escalation event, the shape of the rows the
  router writes, and what it means that a call only appended such rows.
\<close>

definition spec_reasons :: "string list" where
  "spec_reasons = [''low-confidence'', ''low-text-volume'', ''content-changed'']"

definition router_event :: "string \<Rightarrow> escalation_row \<Rightarrow> bool" where
  "router_event u e \<longleftrightarrow>
     esc_reason e = ''low_conf_or_changed'' \<and> esc_to_model e = ''next'' \<and> esc_url e = u
     \<and> (esc_from_model e = ''paddle'' \<or> esc_from_model e = ''azure'')"

definition events_added :: "string \<Rightarrow> Footprints \<Rightarrow> Footprints \<Rightarrow> bool" where
  "events_added u db db' \<longleftrightarrow>
     take (length (escalations db)) (escalations db') = escalations db
     \<and> list_all (router_event u) (drop (length (escalations db)) (escalations db'))"

text \<open>
  The columns a call of \<open>upsert\<close> supplies (those whose value is not \<open>None\<close>), the cell of a
  URL's row in a column (\<open>None\<close> when there is no row), the router a stage leaves behind, and
  a column kept on every row that existed.
\<close>

definition supplied :: "(column \<times> string option) list \<Rightarrow> column list" where
  "supplied kvs = map fst (filter (\<lambda>(k, v). v \<noteq> None) kvs)"

definition cell :: "Footprints \<Rightarrow> string \<Rightarrow> column \<Rightarrow> string option option" where
  "cell db v c = map_option (\<lambda>row. r_cols row c) (pages db v)"

definition router_after :: "outcome \<Rightarrow> VisionRouter" where
  "router_after out = (case out of Next w \<Rightarrow> w_router w | Done res r \<Rightarrow> r)"

definition kept :: "column \<Rightarrow> Footprints \<Rightarrow> Footprints \<Rightarrow> bool" where
  "kept c db db' \<longleftrightarrow> (\<forall>v. pages db v \<noteq> None \<longrightarrow> pages db' v \<noteq> None \<and> cell db' v c = cell db v c)"

text \<open>
  The arithmetic mean, the confidence the specification describes (the mean of what the
  detector reported, 0 when it reported nothing), and what the detectors report: the lines
  of a paddle result with their scores, and the scores of those whose text is not empty;
  the lines of an azure response with the confidences its words carry.
\<close>

definition mean :: "real list \<Rightarrow> real" where
  "mean xs = sum_list xs / real (length xs)"

definition spec_confidence :: "real list \<Rightarrow> real" where
  "spec_confidence reported = (if reported = [] then 0 else mean reported)"

definition paddle_lines :: "paddle_result \<Rightarrow> paddle_line list" where
  "paddle_lines result = concat (map or_empty (or_empty result))"

definition paddle_scores :: "paddle_result \<Rightarrow> real list" where
  "paddle_scores result = List.map_filter (map_option snd) (paddle_lines result)"

definition text_score :: "paddle_line \<Rightarrow> real option" where
  "text_score line = (case line of Some (t, s) \<Rightarrow> if t \<noteq> [] then Some s else None | None \<Rightarrow> None)"

definition paddle_text_scores :: "paddle_result \<Rightarrow> real list" where
  "paddle_text_scores result = List.map_filter text_score (paddle_lines result)"

definition azure_lines :: "azure_data \<Rightarrow> azure_line list" where
  "azure_lines data = concat (map or_empty (or_empty data))"

definition azure_word_confs :: "azure_data \<Rightarrow> real list" where
  "azure_word_confs data =
     concat (map (\<lambda>line. List.map_filter (\<lambda>w. w) (or_empty (ln_words line))) (azure_lines data))"

section \<open>Concrete data\<close>

text \<open>
  An empty store, the default configuration, an environment whose detectors return a
  given result (its clock starts at 1700000000 and advances by one per reading, a
  screenshot's digest is written as the bytes themselves, the text digest is a two-entry
  table, and its float operations are the exact sum and quotient, which is what the rounded
  operations give on the lists of one float and on \<open>(1/4 + 3/4) / 2\<close>, the only ones taken
  below), a fresh router, and a few rows and detector results used to run the definitions. \<open>cfg_short\<close> is the default configuration with the length threshold lowered to 3.
\<close>

definition store_empty :: Footprints where
  "store_empty = \<lparr>pages = Map.empty, escalations = [], runs = Map.empty\<rparr>"

definition cfg_default :: RouterConfig where
  "cfg_default = post_init \<lparr>enable_paddle = True, enable_azure = True, enable_gemini = True,
     order = [], min_chars_for_confidence = 300, min_confidence = float_0_65\<rparr>"

definition env_fixed :: "paddle_result \<Rightarrow> azure_data \<Rightarrow> env" where
  "env_fixed pr ad =
     \<lparr>clock = (\<lambda>k. 1700000000 + int k),
      sha1_hex = (\<lambda>b. b),
      sha256_hex = (\<lambda>s. if s = [97, 98, 99] then ''ba7816bf'' else ''e3b0c442''),
      py_lower = (\<lambda>s. s),
      py_isalnum = (\<lambda>c. (48 \<le> c \<and> c \<le> 57) \<or> (97 \<le> c \<and> c \<le> 122)),
      float_sum = sum_list,
      float_div = (\<lambda>x y. x / y),
      paddle_ocr = (\<lambda>b. Inr pr),
      azure_post = (\<lambda>b. Inr ad)\<rparr>"

definition router_new :: "RouterConfig \<Rightarrow> Footprints \<Rightarrow> VisionRouter" where
  "router_new c db = \<lparr>fp = db, cfg = c, skipped_nochange = 0, used_cheap_ocr = 0,
     escalated_to_gemini = 0\<rparr>"

definition row_seen :: page_row where
  "row_seen = \<lparr>r_first_seen = Some 1600000000, r_last_seen = Some 1600000000,
            r_cols = (\<lambda>c. None)(C_screenshot_sha := Some ''s1'',
                                  C_text_sha_paddle := Some ''p1'',
                                  C_text_sha_azure := Some ''a1'',
                                  C_last_model := Some ''azure'')\<rparr>"

definition store_seen :: Footprints where
  "store_seen = store_empty\<lparr>pages := [''u1'' \<mapsto> row_seen]\<rparr>"

definition ocr_abc :: "real \<Rightarrow> OCRText" where
  "ocr_abc conf = \<lparr>ocr_text = [97, 98, 99], confidence = conf, model = ''paddle''\<rparr>"

definition cfg_short :: RouterConfig where
  "cfg_short = cfg_default\<lparr>min_chars_for_confidence := 3\<rparr>"

definition paddle_abc :: "real \<Rightarrow> paddle_result" where
  "paddle_abc conf = Some [Some [Some ([97, 98, 99], conf)]]"

definition azure_abc :: "real \<Rightarrow> azure_data" where
  "azure_abc conf = Some [Some [\<lparr>ln_text = Some [97, 98, 99], ln_words = Some [Some conf]\<rparr>]]"

definition walk_start :: "VisionRouter \<Rightarrow> walk_state" where
  "walk_start r = \<lparr>w_router = r, ocr_used = False, last_stage = None, tick = 0\<rparr>"

text \<open>
  Calls, configurations and detector results for the runs below: a call whose paddle result
  is confident and one where both analyzers are not; every tier disabled; gemini first in
  the order; paddle alone enabled; one analyzer disabled; an azure update as \<open>upsert\<close> receives
  it and the store it leaves; an azure response whose words carry no confidence; a paddle
  result of two lines of text, and one whose first line has empty text.
\<close>

definition call_good :: call where
  "call_good = \<lparr>c_env = env_fixed (paddle_abc float_0_9) None, c_url = ''u1'', c_bytes = ''s1'',
     c_previous_fp = None, c_callback = None\<rparr>"

definition call_low :: call where
  "call_low = \<lparr>c_env = env_fixed (paddle_abc float_0_3) (azure_abc float_0_3), c_url = ''u1'',
     c_bytes = ''s2'', c_previous_fp = None,
     c_callback = Some (Inr (Some [(''title'', ''coach'')]))\<rparr>"

definition cfg_off :: RouterConfig where
  "cfg_off = cfg_default\<lparr>enable_paddle := False, enable_azure := False, enable_gemini := False\<rparr>"

definition cfg_gemini_first :: RouterConfig where
  "cfg_gemini_first = cfg_default\<lparr>order := [''gemini'', ''paddle'', ''azure'']\<rparr>"

definition cfg_paddle_only :: RouterConfig where
  "cfg_paddle_only = cfg_short\<lparr>enable_azure := False, enable_gemini := False\<rparr>"

definition kvs_azure :: "(column \<times> string option) list" where
  "kvs_azure = [(C_screenshot_sha, Some ''s2''), (C_text_sha_azure, Some ''a2''),
                (C_last_model, Some ''azure''), (C_etag, None)]"

definition store_azure :: Footprints where
  "store_azure = store_seen\<lparr>pages := [''u1'' \<mapsto>
      row_seen\<lparr>r_cols := (r_cols row_seen)(C_screenshot_sha := Some ''s2'',
                   C_text_sha_azure := Some ''a2'', C_last_model := Some ''azure''),
               r_last_seen := Some 1700000005\<rparr>]\<rparr>"

definition cfg_no_paddle :: RouterConfig where
  "cfg_no_paddle = cfg_short\<lparr>enable_paddle := False\<rparr>"

definition cfg_no_azure :: RouterConfig where
  "cfg_no_azure = cfg_short\<lparr>enable_azure := False\<rparr>"

definition azure_no_conf :: azure_data where
  "azure_no_conf = Some [Some [\<lparr>ln_text = Some [97, 98, 99], ln_words = None\<rparr>]]"

definition paddle_pair :: paddle_result where
  "paddle_pair = Some [Some [Some ([97], 1 / 4), Some ([98], 3 / 4)]]"

definition paddle_two :: paddle_result where
  "paddle_two = Some [Some [Some ([], 1 / 4), Some ([97, 98, 99], 3 / 4)]]"

text \<open>
  A store whose row for the URL holds a paddle hash equal to the digest of the text \<open>abc\<close>
  and an azure hash that differs from it, and the configuration that visits azure first.
\<close>

definition row_tiers :: page_row where
  "row_tiers = \<lparr>r_first_seen = Some 1600000000, r_last_seen = Some 1600000000,
            r_cols = (\<lambda>c. None)(C_screenshot_sha := Some ''s1'',
                                  C_text_sha_paddle := Some ''ba7816bf'',
                                  C_text_sha_azure := Some ''a1'',
                                  C_last_model := Some ''azure'')\<rparr>"

definition store_tiers :: Footprints where
  "store_tiers = store_empty\<lparr>pages := [''u1'' \<mapsto> row_tiers]\<rparr>"

definition cfg_azure_first :: RouterConfig where
  "cfg_azure_first = cfg_short\<lparr>order := [''azure'', ''paddle'', ''gemini'']\<rparr>"

section \<open>Auxiliary facts\<close>

lemma py_strip_Nil_iff: "py_strip s = [] \<longleftrightarrow> list_all py_isspace s"
proof
  assume "py_strip s = []"
  then have A: "\<forall>x\<in>set (dropWhile py_isspace s). py_isspace x"
    by (simp add: py_strip_def dropWhile_eq_Nil_conv)
  have "dropWhile py_isspace s = []"
  proof (rule ccontr)
    assume ne: "dropWhile py_isspace s \<noteq> []"
    then have "\<not> py_isspace (hd (dropWhile py_isspace s))" by (rule hd_dropWhile)
    moreover have "hd (dropWhile py_isspace s) \<in> set (dropWhile py_isspace s)"
      using ne by (rule hd_in_set)
    ultimately show False using A by blast
  qed
  then show "list_all py_isspace s"
    by (simp add: list_all_iff dropWhile_eq_Nil_conv)
next
  assume "list_all py_isspace s"
  then have "dropWhile py_isspace s = []"
    by (simp add: list_all_iff dropWhile_eq_Nil_conv)
  then show "py_strip s = []" by (simp add: py_strip_def del: dropWhile_eq_Nil_conv)
qed

lemma needs_escalation_spec: "needs_escalation E c ocr prev = spec_escalate E c ocr prev"
  by (simp add: needs_escalation_def spec_escalate_def py_strip_Nil_iff)

lemma upsert_some_ok:
  "\<exists>db'. upsert now u ((k, Some v) # kvs) db = Inr db'"
  by (auto simp: upsert_def get_def Let_def split: option.splits)

lemma ocr_tier_Next_iff:
  "run b = Inr ocr \<Longrightarrow>
     (\<exists>w'. ocr_tier E name run col prev u b sh w = Next w')
       \<longleftrightarrow> needs_escalation E (cfg (w_router w)) ocr prev"
  using upsert_some_ok[of "clock E (tick w)" u C_screenshot_sha sh
      "[(col, Some (text_sha E (ocr_text ocr))), (C_last_model, Some name)]" "fp (w_router w)"]
  by (auto simp: ocr_tier_def Let_def split: if_splits)

lemma stage_body_paddle_Next_iff:
  assumes "enable_paddle (cfg (w_router w))" "PaddleClient_run E b = Inr ocr"
  shows "(\<exists>w'. stage_body E u b sh pp pa cb ''paddle'' w = Next w')
       \<longleftrightarrow> needs_escalation E (cfg (w_router w)) ocr pp"
proof -
  let ?w = "w\<lparr>last_stage := Some ''paddle''\<rparr>"
  have "(\<exists>w'. ocr_tier E ''paddle'' (PaddleClient_run E) C_text_sha_paddle pp u b sh ?w = Next w')
       \<longleftrightarrow> needs_escalation E (cfg (w_router ?w)) ocr pp"
    using assms(2) by (rule ocr_tier_Next_iff)
  then show ?thesis using assms(1)
    by (auto simp: stage_body_def Let_def split: outcome.splits)
qed

lemma stage_body_azure_Next_iff:
  assumes "enable_azure (cfg (w_router w))" "AzureVisionClient_run E b = Inr ocr"
  shows "(\<exists>w'. stage_body E u b sh pp pa cb ''azure'' w = Next w')
       \<longleftrightarrow> needs_escalation E (cfg (w_router w)) ocr pa"
proof -
  let ?w = "w\<lparr>last_stage := Some ''azure''\<rparr>"
  have "(\<exists>w'. ocr_tier E ''azure'' (AzureVisionClient_run E) C_text_sha_azure pa u b sh ?w = Next w')
       \<longleftrightarrow> needs_escalation E (cfg (w_router ?w)) ocr pa"
    using assms(2) by (rule ocr_tier_Next_iff)
  then show ?thesis using assms(1)
    by (auto simp: stage_body_def Let_def split: outcome.splits)
qed

lemma paddle_text_abc:
  "float_sum E [conf] = conf \<Longrightarrow> float_div E conf 1 = conf \<Longrightarrow>
   paddle_text E (paddle_abc conf) = ocr_abc conf"
  by (simp add: paddle_text_def paddle_collect_def paddle_line_step_def paddle_abc_def ocr_abc_def
      float_mean_def py_strip_def py_isspace_def Let_def)

lemma azure_text_abc:
  "float_sum E [conf] = conf \<Longrightarrow> float_div E conf 1 = conf \<Longrightarrow>
   azure_text E (azure_abc conf)
     = \<lparr>ocr_text = [97, 98, 99], confidence = conf, model = ''azure''\<rparr>"
  by (simp add: azure_text_def azure_collect_def azure_line_step_def azure_abc_def or_empty_def
      float_mean_def py_strip_def py_isspace_def Let_def List.map_filter_def)

section \<open>The fast path\<close>

text \<open>
  C2. When the store has a row for the URL whose screenshot hash equals the hash of the new
  screenshot, the call adds one to \<open>skipped_nochange\<close>, writes the screenshot hash and the
  current time as \<open>last_seen\<close> into that row and nothing else, and returns
  \<open>status = skipped\<close>, \<open>changed = False\<close> with no fields. The result does not depend on the
  detectors: no analyzer runs.
\<close>

theorem fast_path_skip:
  "pages (fp r) u = Some row \<Longrightarrow>
   or_empty (r_cols row C_screenshot_sha) = img_sha E b \<Longrightarrow>
   check_or_escalate E r u b p cb =
     (Inr \<lparr>status = ''skipped'', changed = False, d_fields = []\<rparr>,
      r\<lparr>skipped_nochange := skipped_nochange r + 1,
        fp := (fp r)\<lparr>pages := (pages (fp r))(u \<mapsto>
                 row\<lparr>r_cols := (r_cols row)(C_screenshot_sha := Some (img_sha E b)),
                     r_last_seen := Some (clock E 0)\<rparr>)\<rparr>\<rparr>)"
  by (simp add: check_or_escalate_def check_or_escalate_exit_def get_def upsert_def assign_def
      Let_def)

theorem fast_path_skip_witness:
  "pages (fp (router_new cfg_default store_seen)) ''u1'' = Some row_seen
   \<and> or_empty (r_cols row_seen C_screenshot_sha) = img_sha (env_fixed None None) ''s1''
   \<and> fst (check_or_escalate (env_fixed None None) (router_new cfg_default store_seen) ''u1'' ''s1'' None None)
       = Inr \<lparr>status = ''skipped'', changed = False, d_fields = []\<rparr>
   \<and> skipped_nochange
        (snd (check_or_escalate (env_fixed None None) (router_new cfg_default store_seen) ''u1'' ''s1'' None None)) = 1"
proof -
  have h1: "pages (fp (router_new cfg_default store_seen)) ''u1'' = Some row_seen"
    by (simp add: router_new_def store_seen_def)
  have h2: "or_empty (r_cols row_seen C_screenshot_sha) = img_sha (env_fixed None None) ''s1''"
    by (simp add: row_seen_def or_empty_def img_sha_def env_fixed_def)
  show ?thesis
    using h1 h2 fast_path_skip [OF h1 h2, of None None]
    by (simp add: router_new_def)
qed

section \<open>The parameter \<open>previous_fp\<close>\<close>

text \<open>
  C9. \<open>check_or_escalate\<close> never reads \<open>previous_fp\<close>: two calls that differ only in it
  return the same decision and leave the same router, counters and store.
\<close>

theorem previous_fp_ignored:
  "check_or_escalate E r u b p1 cb = check_or_escalate E r u b p2 cb"
  by (simp add: check_or_escalate_def check_or_escalate_exit_def)

section \<open>Run summaries\<close>

text \<open>
  C10. A run summary is keyed by the whole-second clock reading, the primary key of \<open>runs\<close>.
  After a call that wrote its row, a second call at the same reading writes nothing: it
  fails with an \<open>IntegrityError\<close>.
\<close>

theorem record_run_summary_same_second:
  "record_run_summary now a b c db = Inr db' \<Longrightarrow>
     record_run_summary now a' b' c' db' = Inl IntegrityError
     \<and> runs db' = (runs db)(now \<mapsto> \<lparr>run_skipped_nochange = a, run_used_cheap_ocr = b,
                                       run_escalated_to_gemini = c\<rparr>)"
  by (auto simp: record_run_summary_def split: option.splits)

theorem record_run_summary_same_second_witness:
  "record_run_summary 1700000000 1 2 3 store_empty
     = Inr (store_empty\<lparr>runs := [1700000000 \<mapsto> \<lparr>run_skipped_nochange = 1, run_used_cheap_ocr = 2,
                                            run_escalated_to_gemini = 3\<rparr>]\<rparr>)
   \<and> record_run_summary 1700000000 4 5 6
        (store_empty\<lparr>runs := [1700000000 \<mapsto> \<lparr>run_skipped_nochange = 1, run_used_cheap_ocr = 2,
                                          run_escalated_to_gemini = 3\<rparr>]\<rparr>)
     = Inl IntegrityError"
proof -
  have h: "record_run_summary 1700000000 1 2 3 store_empty
     = Inr (store_empty\<lparr>runs := [1700000000 \<mapsto> \<lparr>run_skipped_nochange = 1, run_used_cheap_ocr = 2,
                                            run_escalated_to_gemini = 3\<rparr>]\<rparr>)"
    by (simp add: record_run_summary_def store_empty_def)
  show ?thesis using h record_run_summary_same_second [OF h, of 4 5 6] by (simp add: store_empty_def)
qed

section \<open>The tiers and the stages, case by case\<close>

lemma ocr_tier_Next:
  assumes "ocr_tier E name run col prev u b sh w = Next w'"
  obtains ocr db' where "run b = Inr ocr"
    and "upsert (clock E (tick w)) u [(C_screenshot_sha, Some sh),
           (col, Some (text_sha E (ocr_text ocr))), (C_last_model, Some name)] (fp (w_router w)) = Inr db'"
    and "needs_escalation E (cfg (w_router w)) ocr prev"
    and "w' = w\<lparr>w_router := (w_router w)\<lparr>fp :=
                   record_escalation (clock E (tick w + 1)) u name ''next'' ''low_conf_or_changed''
                     (confidence ocr, int (length (ocr_text ocr))) db'\<rparr>,
                 ocr_used := True, tick := tick w + 2\<rparr>"
proof (cases "run b")
  case (Inl e)
  with assms show ?thesis by (simp add: ocr_tier_def Let_def)
next
  case (Inr ocr)
  show ?thesis
  proof (cases "upsert (clock E (tick w)) u [(C_screenshot_sha, Some sh),
           (col, Some (text_sha E (ocr_text ocr))), (C_last_model, Some name)] (fp (w_router w))")
    case (Inl e)
    with assms Inr show ?thesis by (simp add: ocr_tier_def Let_def)
  next
    case ups: (Inr db')
    show ?thesis
    proof (cases "needs_escalation E (cfg (w_router w)) ocr prev")
      case True
      with assms Inr ups have "w' = w\<lparr>w_router := (w_router w)\<lparr>fp :=
                   record_escalation (clock E (tick w + 1)) u name ''next'' ''low_conf_or_changed''
                     (confidence ocr, int (length (ocr_text ocr))) db'\<rparr>,
                 ocr_used := True, tick := tick w + 2\<rparr>"
        by (simp add: ocr_tier_def Let_def)
      with Inr ups True show ?thesis by (rule that)
    next
      case False
      with assms Inr ups show ?thesis by (simp add: ocr_tier_def Let_def)
    qed
  qed
qed

lemma ocr_tier_Done:
  assumes "ocr_tier E name run col prev u b sh w = Done res r'"
  obtains e where "res = Inl e" "r' = w_router w"
  | ocr db' where "run b = Inr ocr"
    and "upsert (clock E (tick w)) u [(C_screenshot_sha, Some sh),
           (col, Some (text_sha E (ocr_text ocr))), (C_last_model, Some name)] (fp (w_router w)) = Inr db'"
    and "\<not> needs_escalation E (cfg (w_router w)) ocr prev"
    and "res = Inr (OkTier name)"
    and "r' = (w_router w)\<lparr>fp := db', used_cheap_ocr := used_cheap_ocr (w_router w) + 1\<rparr>"
proof (cases "run b")
  case (Inl e)
  with assms have "res = Inl e" "r' = w_router w" by (simp_all add: ocr_tier_def Let_def)
  then show ?thesis by (rule that(1))
next
  case (Inr ocr)
  show ?thesis
  proof (cases "upsert (clock E (tick w)) u [(C_screenshot_sha, Some sh),
           (col, Some (text_sha E (ocr_text ocr))), (C_last_model, Some name)] (fp (w_router w))")
    case (Inl e)
    with assms Inr have "res = Inl e" "r' = w_router w" by (simp_all add: ocr_tier_def Let_def)
    then show ?thesis by (rule that(1))
  next
    case ups: (Inr db')
    show ?thesis
    proof (cases "needs_escalation E (cfg (w_router w)) ocr prev")
      case True
      with assms Inr ups show ?thesis by (simp add: ocr_tier_def Let_def)
    next
      case False
      with assms Inr ups have "res = Inr (OkTier name)"
        "r' = (w_router w)\<lparr>fp := db', used_cheap_ocr := used_cheap_ocr (w_router w) + 1\<rparr>"
        by (simp_all add: ocr_tier_def Let_def)
      with Inr ups False show ?thesis by (rule that(2))
    qed
  qed
qed

lemma gemini_tier_not_Next: "gemini_tier E cb u sh w \<noteq> Next w'"
  by (simp add: gemini_tier_def Let_def split: sum.splits option.splits)

lemma gemini_tier_raise:
  "gemini_tier E (Some (Inl e)) u sh w =
     Done (Inl e) ((w_router w)\<lparr>escalated_to_gemini := escalated_to_gemini (w_router w) + 1\<rparr>)"
  by (simp add: gemini_tier_def Let_def)

lemma gemini_tier_Done:
  assumes "gemini_tier E cb u sh w = Done res r'"
  obtains e where "res = Inl e"
      "r' = (w_router w)\<lparr>escalated_to_gemini := escalated_to_gemini (w_router w) + 1\<rparr>"
  | fs db' where "res = Inr (Extract fs)"
    and "upsert (clock E (tick w)) u [(C_screenshot_sha, Some sh), (C_last_model, Some ''gemini'')]
           (fp (w_router w)) = Inr db'"
    and "r' = (w_router w)\<lparr>escalated_to_gemini := escalated_to_gemini (w_router w) + 1, fp := db'\<rparr>"
proof -
  let ?r = "(w_router w)\<lparr>escalated_to_gemini := escalated_to_gemini (w_router w) + 1\<rparr>"
  let ?f = "case cb of Some c \<Rightarrow> (case c of Inl e \<Rightarrow> Inl e | Inr res \<Rightarrow> Inr (or_empty res))
            | None \<Rightarrow> Inr []"
  have eq: "gemini_tier E cb u sh w =
     (case ?f of Inl e \<Rightarrow> Done (Inl e) ?r
      | Inr fs \<Rightarrow> (case upsert (clock E (tick w)) u
                  [(C_screenshot_sha, Some sh), (C_last_model, Some ''gemini'')] (fp ?r) of
             Inl e \<Rightarrow> Done (Inl e) ?r
           | Inr db1 \<Rightarrow> Done (Inr (Extract fs)) (?r\<lparr>fp := db1\<rparr>)))"
    by (simp add: gemini_tier_def Let_def)
  have fpr: "fp ?r = fp (w_router w)" by simp
  show ?thesis
  proof (cases ?f)
    case (Inl e)
    with assms eq have "res = Inl e" "r' = ?r" by simp_all
    then show ?thesis by (rule that(1))
  next
    case fs: (Inr fs)
    show ?thesis
    proof (cases "upsert (clock E (tick w)) u
                  [(C_screenshot_sha, Some sh), (C_last_model, Some ''gemini'')] (fp (w_router w))")
      case (Inl e)
      with assms eq fs fpr have "res = Inl e" "r' = ?r" by simp_all
      then show ?thesis by (rule that(1))
    next
      case (Inr db')
      with assms eq fs fpr have "res = Inr (Extract fs)" "r' = ?r\<lparr>fp := db'\<rparr>" by simp_all
      with Inr show ?thesis by (intro that(2)) simp_all
    qed
  qed
qed

lemma stage_body_paddle:
  "enable_paddle (cfg (w_router w)) \<Longrightarrow>
   stage_body E u b sh pp pa cb ''paddle'' w =
     ocr_tier E ''paddle'' (PaddleClient_run E) C_text_sha_paddle pp u b sh
       (w\<lparr>last_stage := Some ''paddle''\<rparr>)"
  by (simp add: stage_body_def Let_def split: outcome.splits)

lemma stage_body_azure:
  "enable_azure (cfg (w_router w)) \<Longrightarrow>
   stage_body E u b sh pp pa cb ''azure'' w =
     ocr_tier E ''azure'' (AzureVisionClient_run E) C_text_sha_azure pa u b sh
       (w\<lparr>last_stage := Some ''azure''\<rparr>)"
  by (simp add: stage_body_def Let_def split: outcome.splits)

lemma stage_body_gemini:
  "enable_gemini (cfg (w_router w)) \<Longrightarrow>
   stage_body E u b sh pp pa cb ''gemini'' w =
     gemini_tier E cb u sh (w\<lparr>last_stage := Some ''gemini''\<rparr>)"
  by (simp add: stage_body_def Let_def)

lemma stage_body_skip:
  "\<not> (stage = ''paddle'' \<and> enable_paddle (cfg (w_router w))) \<Longrightarrow>
   \<not> (stage = ''azure'' \<and> enable_azure (cfg (w_router w))) \<Longrightarrow>
   \<not> (stage = ''gemini'' \<and> enable_gemini (cfg (w_router w))) \<Longrightarrow>
   stage_body E u b sh pp pa cb stage w = Next (w\<lparr>last_stage := Some stage\<rparr>)"
  by (auto simp add: stage_body_def Let_def)

lemma stage_body_cases:
  obtains
    (paddle) "stage = ''paddle''" "enable_paddle (cfg (w_router w))"
      "stage_body E u b sh pp pa cb stage w =
         ocr_tier E ''paddle'' (PaddleClient_run E) C_text_sha_paddle pp u b sh
           (w\<lparr>last_stage := Some ''paddle''\<rparr>)"
  | (azure) "stage = ''azure''" "enable_azure (cfg (w_router w))"
      "stage_body E u b sh pp pa cb stage w =
         ocr_tier E ''azure'' (AzureVisionClient_run E) C_text_sha_azure pa u b sh
           (w\<lparr>last_stage := Some ''azure''\<rparr>)"
  | (gemini) "stage = ''gemini''" "enable_gemini (cfg (w_router w))"
      "stage_body E u b sh pp pa cb stage w =
         gemini_tier E cb u sh (w\<lparr>last_stage := Some ''gemini''\<rparr>)"
  | (skip) "\<not> (stage = ''paddle'' \<and> enable_paddle (cfg (w_router w)))"
      "\<not> (stage = ''azure'' \<and> enable_azure (cfg (w_router w)))"
      "\<not> (stage = ''gemini'' \<and> enable_gemini (cfg (w_router w)))"
      "stage_body E u b sh pp pa cb stage w = Next (w\<lparr>last_stage := Some stage\<rparr>)"
proof (cases "stage = ''paddle'' \<and> enable_paddle (cfg (w_router w))")
  case True
  then show ?thesis using stage_body_paddle [of w E u b sh pp pa cb] by (intro paddle) simp_all
next
  case np: False
  show ?thesis
  proof (cases "stage = ''azure'' \<and> enable_azure (cfg (w_router w))")
    case True
    then show ?thesis using stage_body_azure [of w E u b sh pp pa cb] by (intro azure) simp_all
  next
    case na: False
    show ?thesis
    proof (cases "stage = ''gemini'' \<and> enable_gemini (cfg (w_router w))")
      case True
      then show ?thesis using stage_body_gemini [of w E u b sh pp pa cb]
        by (intro gemini) simp_all
    next
      case False
      with np na show ?thesis using stage_body_skip [of stage w E u b sh pp pa cb]
        by (intro skip) simp_all
    qed
  qed
qed

section \<open>Induction over the walk\<close>

lemma walk_rule:
  assumes step: "\<And>stage w w'. I w \<Longrightarrow> stage_body E u b sh pp pa cb stage w = Next w' \<Longrightarrow> I w'"
    and fin: "\<And>stage w res r'. I w \<Longrightarrow> stage_body E u b sh pp pa cb stage w = Done res r'
                \<Longrightarrow> Q res r'"
    and exh: "\<And>w. I w \<Longrightarrow> Q (fst (walk E u b sh pp pa cb [] w)) (snd (walk E u b sh pp pa cb [] w))"
    and init: "I w"
    and run: "walk E u b sh pp pa cb stages w = (res, r')"
  shows "Q res r'"
  using init run
proof (induction stages arbitrary: w)
  case Nil
  from exh [OF Nil(1)] Nil(2) show ?case by simp
next
  case (Cons stage rest)
  show ?case
  proof (cases "stage_body E u b sh pp pa cb stage w")
    case (Next w')
    with Cons.prems have "walk E u b sh pp pa cb rest w' = (res, r')" by simp
    moreover from Cons.prems(1) Next have "I w'" by (rule step)
    ultimately show ?thesis by (rule Cons.IH [rotated])
  next
    case (Done res0 r0)
    with Cons.prems have "res0 = res" "r0 = r'" by simp_all
    with fin [OF Cons.prems(1) Done] show ?thesis by simp
  qed
qed

lemma ocr_tier_Next_summary:
  "ocr_tier E name run col prev u b sh w = Next w' \<Longrightarrow>
     summary (w_router w') = summary (w_router w) \<and> cfg (w_router w') = cfg (w_router w)"
  by (erule ocr_tier_Next) (simp add: summary_def)

lemma ocr_tier_Done_summary:
  "ocr_tier E name run col prev u b sh w = Done (Inr x) r' \<Longrightarrow>
     summary r' = add3 (summary (w_router w)) (0, 1, 0) \<and> x = OkTier name"
  by (erule ocr_tier_Done) (simp_all add: summary_def add3_def)

lemma gemini_tier_Done_summary:
  "gemini_tier E cb u sh w = Done (Inr x) r' \<Longrightarrow>
     summary r' = add3 (summary (w_router w)) (0, 0, 1) \<and> (\<exists>fs. x = Extract fs)"
  by (erule gemini_tier_Done) (simp_all add: summary_def add3_def)

lemma stage_body_Next_summary:
  assumes "stage_body E u b sh pp pa cb stage w = Next w'"
  shows "summary (w_router w') = summary (w_router w) \<and> cfg (w_router w') = cfg (w_router w)"
proof (cases rule: stage_body_cases [of stage w E u b sh pp pa cb])
  case paddle
  with assms have "ocr_tier E ''paddle'' (PaddleClient_run E) C_text_sha_paddle pp u b sh
           (w\<lparr>last_stage := Some ''paddle''\<rparr>) = Next w'" by simp
  from ocr_tier_Next_summary [OF this] show ?thesis by simp
next
  case azure
  with assms have "ocr_tier E ''azure'' (AzureVisionClient_run E) C_text_sha_azure pa u b sh
           (w\<lparr>last_stage := Some ''azure''\<rparr>) = Next w'" by simp
  from ocr_tier_Next_summary [OF this] show ?thesis by simp
next
  case gemini
  with assms have "gemini_tier E cb u sh (w\<lparr>last_stage := Some ''gemini''\<rparr>) = Next w'" by simp
  then show ?thesis by (simp add: gemini_tier_not_Next)
next
  case skip
  with assms show ?thesis by auto
qed

lemma stage_body_Done_summary:
  assumes "stage_body E u b sh pp pa cb stage w = Done (Inr x) r'"
  shows "summary r' = add3 (summary (w_router w)) (counts_of x)
         \<and> ((\<exists>fs. x = Extract fs) \<or> x = OkTier ''paddle'' \<or> x = OkTier ''azure'')"
proof (cases rule: stage_body_cases [of stage w E u b sh pp pa cb])
  case paddle
  with assms have "ocr_tier E ''paddle'' (PaddleClient_run E) C_text_sha_paddle pp u b sh
           (w\<lparr>last_stage := Some ''paddle''\<rparr>) = Done (Inr x) r'" by simp
  from ocr_tier_Done_summary [OF this] show ?thesis by simp
next
  case azure
  with assms have "ocr_tier E ''azure'' (AzureVisionClient_run E) C_text_sha_azure pa u b sh
           (w\<lparr>last_stage := Some ''azure''\<rparr>) = Done (Inr x) r'" by simp
  from ocr_tier_Done_summary [OF this] show ?thesis by simp
next
  case gemini
  with assms have "gemini_tier E cb u sh (w\<lparr>last_stage := Some ''gemini''\<rparr>) = Done (Inr x) r'"
    by simp
  from gemini_tier_Done_summary [OF this] show ?thesis by auto
next
  case skip
  with assms show ?thesis by simp
qed

lemma walk_summary:
  assumes "walk E u b sh pp pa cb stages w = (Inr x, r')"
  shows "summary r' = add3 (summary (w_router w)) (counts_of x) \<and> x \<noteq> SkipNoChange
         \<and> (\<forall>s. x = OkTier s \<longrightarrow> s = ''paddle'' \<or> s = ''azure'')"
proof -
  let ?I = "\<lambda>w'. summary (w_router w') = summary (w_router w)"
  let ?Q = "\<lambda>res r'. \<forall>x. res = Inr x \<longrightarrow>
      summary r' = add3 (summary (w_router w)) (counts_of x) \<and> x \<noteq> SkipNoChange
         \<and> (\<forall>s. x = OkTier s \<longrightarrow> s = ''paddle'' \<or> s = ''azure'')"
  have S: "?I w2" if "?I w1" "stage_body E u b sh pp pa cb stage w1 = Next w2" for stage w1 w2
    using that stage_body_Next_summary [of E u b sh pp pa cb stage w1 w2] by simp
  have F: "?Q res r1" if "?I w1" "stage_body E u b sh pp pa cb stage w1 = Done res r1"
    for stage w1 res r1
    using that stage_body_Done_summary [of E u b sh pp pa cb stage w1 _ r1] by auto
  have X: "?Q (fst (walk E u b sh pp pa cb [] w1)) (snd (walk E u b sh pp pa cb [] w1))"
    if "?I w1" for w1
    using that by (auto simp: add3_def)
  have I0: "?I w" by simp
  from walk_rule [where I = ?I and Q = ?Q, OF S F X I0 assms] show ?thesis by simp
qed

lemma check_or_escalate_exit_summary:
  assumes "check_or_escalate_exit E r u b p cb = (Inr x, r')"
  shows "summary r' = add3 (summary r) (counts_of x)
         \<and> (\<forall>s. x = OkTier s \<longrightarrow> s = ''paddle'' \<or> s = ''azure'')"
proof (cases "case get (fp r) u of Some p \<Rightarrow> screenshot_sha p = img_sha E b | None \<Rightarrow> False")
  case True
  with assms show ?thesis
    by (auto simp: check_or_escalate_exit_def Let_def summary_def add3_def split: sum.splits)
next
  case False
  with assms have "walk E u b (img_sha E b)
      (case get (fp r) u of Some p \<Rightarrow> text_sha_paddle p | None \<Rightarrow> [])
      (case get (fp r) u of Some p \<Rightarrow> text_sha_azure p | None \<Rightarrow> []) cb (order (cfg r))
      \<lparr>w_router = r, ocr_used = False, last_stage = None, tick = 0\<rparr> = (Inr x, r')"
    by (simp add: check_or_escalate_exit_def Let_def)
  from walk_summary [OF this] show ?thesis by simp
qed

section \<open>The hash a tier is compared with\<close>

lemma check_or_escalate_exit_walk:
  "\<not> screenshot_seen E (fp r) u b \<Longrightarrow>
   check_or_escalate_exit E r u b p cb =
     walk E u b (img_sha E b) (prev_hash (fp r) u C_text_sha_paddle)
       (prev_hash (fp r) u C_text_sha_azure) cb (order (cfg r)) (walk_start r)"
  by (cases "pages (fp r) u")
    (simp_all add: check_or_escalate_exit_def screenshot_seen_def prev_hash_def get_def
      walk_start_def Let_def)

lemma check_or_escalate_exit_seen:
  "screenshot_seen E (fp r) u b \<Longrightarrow> fst (check_or_escalate_exit E r u b p cb) \<noteq> Inr (OkTier name)"
  by (cases "pages (fp r) u")
    (auto simp: check_or_escalate_exit_def screenshot_seen_def get_def Let_def split: sum.splits)

lemma walk_run_stages:
  "walk E u b sh pp pa cb stages w =
     (case run_stages E u b sh pp pa cb stages w of
        Done res r \<Rightarrow> (res, r)
      | Next w' \<Rightarrow> walk E u b sh pp pa cb [] w')"
  by (induction stages arbitrary: w) (simp_all split: outcome.splits)

lemma ocr_tier_resolves:
  assumes "run b = Inr ocr" "\<not> needs_escalation E (cfg (w_router w)) ocr prev"
  shows "\<exists>r'. ocr_tier E name run col prev u b sh w = Done (Inr (OkTier name)) r'"
proof -
  obtain db' where "upsert (clock E (tick w)) u [(C_screenshot_sha, Some sh),
      (col, Some (text_sha E (ocr_text ocr))), (C_last_model, Some name)] (fp (w_router w)) = Inr db'"
    using upsert_some_ok by blast
  with assms show ?thesis by (simp add: ocr_tier_def Let_def)
qed

lemma ocr_tier_OkTier:
  assumes "ocr_tier E name run col prev u b sh w = Done (Inr (OkTier n)) r'"
  shows "n = name \<and> (\<exists>ocr. run b = Inr ocr \<and> \<not> needs_escalation E (cfg (w_router w)) ocr prev)"
  using assms by (rule ocr_tier_Done) auto

lemma walk_OkTier:
  "walk E u b sh pp pa cb stages w = (Inr (OkTier n), r') \<Longrightarrow>
     n = ''paddle'' \<and> (\<exists>ocr. PaddleClient_run E b = Inr ocr
                          \<and> \<not> needs_escalation E (cfg (w_router w)) ocr pp)
     \<or> n = ''azure'' \<and> (\<exists>ocr. AzureVisionClient_run E b = Inr ocr
                           \<and> \<not> needs_escalation E (cfg (w_router w)) ocr pa)"
proof (induction stages arbitrary: w)
  case Nil
  then show ?case by (simp split: if_splits)
next
  case (Cons stage rest)
  show ?case
  proof (cases "stage_body E u b sh pp pa cb stage w")
    case (Next w')
    with Cons.prems have "walk E u b sh pp pa cb rest w' = (Inr (OkTier n), r')" by simp
    from Cons.IH [OF this] stage_body_Next_summary [OF Next] show ?thesis by simp
  next
    case (Done res r0)
    with Cons.prems have d: "stage_body E u b sh pp pa cb stage w = Done (Inr (OkTier n)) r'"
      by simp
    show ?thesis
    proof (cases rule: stage_body_cases [of stage w E u b sh pp pa cb])
      case paddle
      with d have "ocr_tier E ''paddle'' (PaddleClient_run E) C_text_sha_paddle pp u b sh
           (w\<lparr>last_stage := Some ''paddle''\<rparr>) = Done (Inr (OkTier n)) r'" by simp
      from ocr_tier_OkTier [OF this] show ?thesis by simp
    next
      case azure
      with d have "ocr_tier E ''azure'' (AzureVisionClient_run E) C_text_sha_azure pa u b sh
           (w\<lparr>last_stage := Some ''azure''\<rparr>) = Done (Inr (OkTier n)) r'" by simp
      from ocr_tier_OkTier [OF this] show ?thesis by simp
    next
      case gemini
      with d have "gemini_tier E cb u sh (w\<lparr>last_stage := Some ''gemini''\<rparr>)
          = Done (Inr (OkTier n)) r'" by simp
      from gemini_tier_Done_summary [OF this] show ?thesis by simp
    next
      case skip
      with d show ?thesis by simp
    qed
  qed
qed

lemma exit_OkTier:
  assumes "check_or_escalate_exit E r u b p cb = (Inr (OkTier n), r')"
  shows "n = ''paddle'' \<and> (\<exists>ocr. PaddleClient_run E b = Inr ocr
            \<and> \<not> spec_escalate E (cfg r) ocr (prev_hash (fp r) u C_text_sha_paddle))
     \<or> n = ''azure'' \<and> (\<exists>ocr. AzureVisionClient_run E b = Inr ocr
            \<and> \<not> spec_escalate E (cfg r) ocr (prev_hash (fp r) u C_text_sha_azure))"
proof -
  have ns: "\<not> screenshot_seen E (fp r) u b"
    using assms check_or_escalate_exit_seen [of E r u b p cb n] by auto
  from check_or_escalate_exit_walk [OF ns, of p cb] assms
  have "walk E u b (img_sha E b) (prev_hash (fp r) u C_text_sha_paddle)
       (prev_hash (fp r) u C_text_sha_azure) cb (order (cfg r)) (walk_start r)
       = (Inr (OkTier n), r')" by simp
  from walk_OkTier [OF this] show ?thesis
    by (simp add: walk_start_def needs_escalation_spec)
qed

lemma first_tier_paddle:
  assumes ns: "\<not> screenshot_seen E (fp r) u b" and o: "order (cfg r) = ''paddle'' # rest"
    and en: "enable_paddle (cfg r)" and run: "PaddleClient_run E b = Inr ocr"
  shows "(\<exists>r'. check_or_escalate_exit E r u b p cb = (Inr (OkTier ''paddle''), r'))
     \<longleftrightarrow> \<not> spec_escalate E (cfg r) ocr (prev_hash (fp r) u C_text_sha_paddle)"
proof
  assume "\<exists>r'. check_or_escalate_exit E r u b p cb = (Inr (OkTier ''paddle''), r')"
  then obtain r' where "check_or_escalate_exit E r u b p cb = (Inr (OkTier ''paddle''), r')" ..
  from exit_OkTier [OF this] run
  show "\<not> spec_escalate E (cfg r) ocr (prev_hash (fp r) u C_text_sha_paddle)" by simp
next
  assume n: "\<not> spec_escalate E (cfg r) ocr (prev_hash (fp r) u C_text_sha_paddle)"
  let ?pp = "prev_hash (fp r) u C_text_sha_paddle" and ?pa = "prev_hash (fp r) u C_text_sha_azure"
  let ?w = "(walk_start r)\<lparr>last_stage := Some ''paddle''\<rparr>"
  from en have sb: "stage_body E u b (img_sha E b) ?pp ?pa cb ''paddle'' (walk_start r) =
      ocr_tier E ''paddle'' (PaddleClient_run E) C_text_sha_paddle ?pp u b (img_sha E b) ?w"
    by (intro stage_body_paddle) (simp add: walk_start_def)
  from n have "\<not> needs_escalation E (cfg (w_router ?w)) ocr ?pp"
    by (simp add: needs_escalation_spec walk_start_def)
  from ocr_tier_resolves [of "PaddleClient_run E" b ocr E ?w ?pp "''paddle''" C_text_sha_paddle u
      "img_sha E b", OF run this] obtain r' where
    "ocr_tier E ''paddle'' (PaddleClient_run E) C_text_sha_paddle ?pp u b (img_sha E b) ?w
       = Done (Inr (OkTier ''paddle'')) r'" by blast
  with sb o have "walk E u b (img_sha E b) ?pp ?pa cb (order (cfg r)) (walk_start r)
      = (Inr (OkTier ''paddle''), r')" by simp
  with check_or_escalate_exit_walk [OF ns, of p cb]
  show "\<exists>r'. check_or_escalate_exit E r u b p cb = (Inr (OkTier ''paddle''), r')" by simp
qed

lemma first_tier_azure:
  assumes ns: "\<not> screenshot_seen E (fp r) u b" and o: "order (cfg r) = ''azure'' # rest"
    and en: "enable_azure (cfg r)" and run: "AzureVisionClient_run E b = Inr ocr"
  shows "(\<exists>r'. check_or_escalate_exit E r u b p cb = (Inr (OkTier ''azure''), r'))
     \<longleftrightarrow> \<not> spec_escalate E (cfg r) ocr (prev_hash (fp r) u C_text_sha_azure)"
proof
  assume "\<exists>r'. check_or_escalate_exit E r u b p cb = (Inr (OkTier ''azure''), r')"
  then obtain r' where "check_or_escalate_exit E r u b p cb = (Inr (OkTier ''azure''), r')" ..
  from exit_OkTier [OF this] run
  show "\<not> spec_escalate E (cfg r) ocr (prev_hash (fp r) u C_text_sha_azure)" by simp
next
  assume n: "\<not> spec_escalate E (cfg r) ocr (prev_hash (fp r) u C_text_sha_azure)"
  let ?pp = "prev_hash (fp r) u C_text_sha_paddle" and ?pa = "prev_hash (fp r) u C_text_sha_azure"
  let ?w = "(walk_start r)\<lparr>last_stage := Some ''azure''\<rparr>"
  from en have sb: "stage_body E u b (img_sha E b) ?pp ?pa cb ''azure'' (walk_start r) =
      ocr_tier E ''azure'' (AzureVisionClient_run E) C_text_sha_azure ?pa u b (img_sha E b) ?w"
    by (intro stage_body_azure) (simp add: walk_start_def)
  from n have "\<not> needs_escalation E (cfg (w_router ?w)) ocr ?pa"
    by (simp add: needs_escalation_spec walk_start_def)
  from ocr_tier_resolves [of "AzureVisionClient_run E" b ocr E ?w ?pa "''azure''" C_text_sha_azure u
      "img_sha E b", OF run this] obtain r' where
    "ocr_tier E ''azure'' (AzureVisionClient_run E) C_text_sha_azure ?pa u b (img_sha E b) ?w
       = Done (Inr (OkTier ''azure'')) r'" by blast
  with sb o have "walk E u b (img_sha E b) ?pp ?pa cb (order (cfg r)) (walk_start r)
      = (Inr (OkTier ''azure''), r')" by simp
  with check_or_escalate_exit_walk [OF ns, of p cb]
  show "\<exists>r'. check_or_escalate_exit E r u b p cb = (Inr (OkTier ''azure''), r')" by simp
qed

section \<open>The escalation predicate\<close>

text \<open>
  C1. In the tier walk, a tier escalates exactly when its extracted text is empty or blank,
  or shorter than \<open>min_chars_for_confidence\<close>, or its confidence is below
  \<open>min_confidence\<close>, or a previous hash stored for that same tier exists and differs from
  the hash of the new text. A text of exactly \<open>min_chars_for_confidence\<close> characters does not
  escalate on its length: only the other three conditions decide. A stage whose analyzer
  returned continues to the next stage exactly when the predicate holds on the hash the walk
  was given for that tier. A call whose screenshot is new runs the walk on the two hashes
  stored in the URL's row, the column \<open>text_sha_paddle\<close> for the paddle tier and
  \<open>text_sha_azure\<close> for the azure tier: the call returns a tier's name as status only if
  that tier's analyzer returned a result on which the predicate, taken with the hash stored
  for that tier, fails, and when the tier is enabled and first in the order, exactly then.
\<close>

theorem escalation_predicate:
  "(needs_escalation E c ocr prev \<longleftrightarrow> spec_escalate E c ocr prev)
   \<and> (int (length (ocr_text ocr)) = min_chars_for_confidence c \<longrightarrow>
        (needs_escalation E c ocr prev \<longleftrightarrow>
           list_all py_isspace (ocr_text ocr) \<or> confidence ocr < min_confidence c
           \<or> (prev \<noteq> [] \<and> text_sha E (ocr_text ocr) \<noteq> prev)))
   \<and> (enable_paddle (cfg (w_router w)) \<and> PaddleClient_run E b = Inr ocr_p \<longrightarrow>
        ((\<exists>w'. stage_body E u b sh pp pa cb ''paddle'' w = Next w')
           \<longleftrightarrow> spec_escalate E (cfg (w_router w)) ocr_p pp))
   \<and> (enable_azure (cfg (w_router w)) \<and> AzureVisionClient_run E b = Inr ocr_a \<longrightarrow>
        ((\<exists>w'. stage_body E u b sh pp pa cb ''azure'' w = Next w')
           \<longleftrightarrow> spec_escalate E (cfg (w_router w)) ocr_a pa))
   \<and> (\<not> screenshot_seen E (fp r) u b \<longrightarrow>
        check_or_escalate_exit E r u b p cb =
          walk E u b (img_sha E b) (prev_hash (fp r) u C_text_sha_paddle)
            (prev_hash (fp r) u C_text_sha_azure) cb (order (cfg r)) (walk_start r))
   \<and> (check_or_escalate_exit E r u b p cb = (Inr (OkTier n), r') \<longrightarrow>
        n = ''paddle'' \<and> (\<exists>ocr. PaddleClient_run E b = Inr ocr
            \<and> \<not> spec_escalate E (cfg r) ocr (prev_hash (fp r) u C_text_sha_paddle))
        \<or> n = ''azure'' \<and> (\<exists>ocr. AzureVisionClient_run E b = Inr ocr
            \<and> \<not> spec_escalate E (cfg r) ocr (prev_hash (fp r) u C_text_sha_azure)))
   \<and> (\<not> screenshot_seen E (fp r) u b \<and> order (cfg r) = ''paddle'' # rest
       \<and> enable_paddle (cfg r) \<and> PaddleClient_run E b = Inr ocr_p \<longrightarrow>
        ((\<exists>r'. check_or_escalate_exit E r u b p cb = (Inr (OkTier ''paddle''), r'))
           \<longleftrightarrow> \<not> spec_escalate E (cfg r) ocr_p (prev_hash (fp r) u C_text_sha_paddle)))
   \<and> (\<not> screenshot_seen E (fp r) u b \<and> order (cfg r) = ''azure'' # rest
       \<and> enable_azure (cfg r) \<and> AzureVisionClient_run E b = Inr ocr_a \<longrightarrow>
        ((\<exists>r'. check_or_escalate_exit E r u b p cb = (Inr (OkTier ''azure''), r'))
           \<longleftrightarrow> \<not> spec_escalate E (cfg r) ocr_a (prev_hash (fp r) u C_text_sha_azure)))"
proof (intro conjI impI)
  show "needs_escalation E c ocr prev \<longleftrightarrow> spec_escalate E c ocr prev"
    by (rule needs_escalation_spec)
next
  assume "int (length (ocr_text ocr)) = min_chars_for_confidence c"
  then show "needs_escalation E c ocr prev \<longleftrightarrow>
           list_all py_isspace (ocr_text ocr) \<or> confidence ocr < min_confidence c
           \<or> (prev \<noteq> [] \<and> text_sha E (ocr_text ocr) \<noteq> prev)"
    by (simp add: needs_escalation_spec spec_escalate_def)
next
  assume "enable_paddle (cfg (w_router w)) \<and> PaddleClient_run E b = Inr ocr_p"
  then show "(\<exists>w'. stage_body E u b sh pp pa cb ''paddle'' w = Next w')
           \<longleftrightarrow> spec_escalate E (cfg (w_router w)) ocr_p pp"
    using stage_body_paddle_Next_iff [of w E b ocr_p u sh pp pa cb]
    by (simp add: needs_escalation_spec)
next
  assume "enable_azure (cfg (w_router w)) \<and> AzureVisionClient_run E b = Inr ocr_a"
  then show "(\<exists>w'. stage_body E u b sh pp pa cb ''azure'' w = Next w')
           \<longleftrightarrow> spec_escalate E (cfg (w_router w)) ocr_a pa"
    using stage_body_azure_Next_iff [of w E b ocr_a u sh pp pa cb]
    by (simp add: needs_escalation_spec)
next
  assume "\<not> screenshot_seen E (fp r) u b"
  then show "check_or_escalate_exit E r u b p cb =
          walk E u b (img_sha E b) (prev_hash (fp r) u C_text_sha_paddle)
            (prev_hash (fp r) u C_text_sha_azure) cb (order (cfg r)) (walk_start r)"
    by (rule check_or_escalate_exit_walk)
next
  assume "check_or_escalate_exit E r u b p cb = (Inr (OkTier n), r')"
  then show "n = ''paddle'' \<and> (\<exists>ocr. PaddleClient_run E b = Inr ocr
            \<and> \<not> spec_escalate E (cfg r) ocr (prev_hash (fp r) u C_text_sha_paddle))
        \<or> n = ''azure'' \<and> (\<exists>ocr. AzureVisionClient_run E b = Inr ocr
            \<and> \<not> spec_escalate E (cfg r) ocr (prev_hash (fp r) u C_text_sha_azure))"
    by (rule exit_OkTier)
next
  assume "\<not> screenshot_seen E (fp r) u b \<and> order (cfg r) = ''paddle'' # rest
       \<and> enable_paddle (cfg r) \<and> PaddleClient_run E b = Inr ocr_p"
  then show "(\<exists>r'. check_or_escalate_exit E r u b p cb = (Inr (OkTier ''paddle''), r'))
           \<longleftrightarrow> \<not> spec_escalate E (cfg r) ocr_p (prev_hash (fp r) u C_text_sha_paddle)"
    using first_tier_paddle [of E r u b rest ocr_p p cb] by blast
next
  assume "\<not> screenshot_seen E (fp r) u b \<and> order (cfg r) = ''azure'' # rest
       \<and> enable_azure (cfg r) \<and> AzureVisionClient_run E b = Inr ocr_a"
  then show "(\<exists>r'. check_or_escalate_exit E r u b p cb = (Inr (OkTier ''azure''), r'))
           \<longleftrightarrow> \<not> spec_escalate E (cfg r) ocr_a (prev_hash (fp r) u C_text_sha_azure)"
    using first_tier_azure [of E r u b rest ocr_a p cb] by blast
qed

theorem escalation_predicate_witness:
  "int (length (ocr_text (ocr_abc float_0_9))) = min_chars_for_confidence cfg_short
   \<and> \<not> needs_escalation (env_fixed (paddle_abc float_0_3) (azure_abc float_0_3)) cfg_short (ocr_abc float_0_9) []
   \<and> enable_paddle (cfg (w_router (walk_start (router_new cfg_short store_empty))))
   \<and> PaddleClient_run (env_fixed (paddle_abc float_0_3) (azure_abc float_0_3)) [] = Inr (ocr_abc float_0_3)
   \<and> (\<exists>w'. stage_body (env_fixed (paddle_abc float_0_3) (azure_abc float_0_3)) ''u1'' [] ''s1'' [] [] None ''paddle''
              (walk_start (router_new cfg_short store_empty)) = Next w')
   \<and> enable_azure (cfg (w_router (walk_start (router_new cfg_short store_empty))))
   \<and> AzureVisionClient_run (env_fixed (paddle_abc float_0_3) (azure_abc float_0_3)) []
       = Inr \<lparr>ocr_text = [97, 98, 99], confidence = float_0_3, model = ''azure''\<rparr>
   \<and> (\<exists>w'. stage_body (env_fixed (paddle_abc float_0_3) (azure_abc float_0_3)) ''u1'' [] ''s1'' [] [] None ''azure''
              (walk_start (router_new cfg_short store_empty)) = Next w')
   \<and> \<not> screenshot_seen (env_fixed (paddle_abc float_0_9) (azure_abc float_0_9))
        (fp (router_new cfg_short store_tiers)) ''u1'' ''s2''
   \<and> \<not> screenshot_seen (env_fixed (paddle_abc float_0_9) (azure_abc float_0_9))
        (fp (router_new cfg_azure_first store_tiers)) ''u1'' ''s2''
   \<and> prev_hash (fp (router_new cfg_short store_tiers)) ''u1'' C_text_sha_paddle = ''ba7816bf''
   \<and> prev_hash (fp (router_new cfg_short store_tiers)) ''u1'' C_text_sha_azure = ''a1''
   \<and> prev_hash (fp (router_new cfg_azure_first store_tiers)) ''u1'' C_text_sha_azure = ''a1''
   \<and> order (cfg (router_new cfg_short store_tiers)) = ''paddle'' # [''azure'', ''gemini'']
   \<and> order (cfg (router_new cfg_azure_first store_tiers)) = ''azure'' # [''paddle'', ''gemini'']
   \<and> enable_paddle (cfg (router_new cfg_short store_tiers))
   \<and> enable_azure (cfg (router_new cfg_azure_first store_tiers))
   \<and> PaddleClient_run (env_fixed (paddle_abc float_0_9) (azure_abc float_0_9)) ''s2''
       = Inr (ocr_abc float_0_9)
   \<and> AzureVisionClient_run (env_fixed (paddle_abc float_0_9) (azure_abc float_0_9)) ''s2''
       = Inr \<lparr>ocr_text = [97, 98, 99], confidence = float_0_9, model = ''azure''\<rparr>
   \<and> text_sha (env_fixed (paddle_abc float_0_9) (azure_abc float_0_9)) [97, 98, 99] = ''ba7816bf''
   \<and> check_or_escalate_exit (env_fixed (paddle_abc float_0_9) (azure_abc float_0_9))
          (router_new cfg_short store_tiers) ''u1'' ''s2'' None None
       = walk (env_fixed (paddle_abc float_0_9) (azure_abc float_0_9)) ''u1'' ''s2''
           (img_sha (env_fixed (paddle_abc float_0_9) (azure_abc float_0_9)) ''s2'')
           (prev_hash (fp (router_new cfg_short store_tiers)) ''u1'' C_text_sha_paddle)
           (prev_hash (fp (router_new cfg_short store_tiers)) ''u1'' C_text_sha_azure)
           None (order (cfg (router_new cfg_short store_tiers)))
           (walk_start (router_new cfg_short store_tiers))
   \<and> fst (check_or_escalate_exit (env_fixed (paddle_abc float_0_9) (azure_abc float_0_9))
          (router_new cfg_short store_tiers) ''u1'' ''s2'' None None) = Inr (OkTier ''paddle'')
   \<and> (\<exists>ocr. PaddleClient_run (env_fixed (paddle_abc float_0_9) (azure_abc float_0_9)) ''s2''
              = Inr ocr
          \<and> \<not> spec_escalate (env_fixed (paddle_abc float_0_9) (azure_abc float_0_9))
                (cfg (router_new cfg_short store_tiers)) ocr
                (prev_hash (fp (router_new cfg_short store_tiers)) ''u1'' C_text_sha_paddle))
   \<and> fst (check_or_escalate_exit (env_fixed (paddle_abc float_0_9) (azure_abc float_0_9))
          (router_new cfg_azure_first store_tiers) ''u1'' ''s2'' None None) \<noteq> Inr (OkTier ''azure'')"
proof -
  let ?L = "env_fixed (paddle_abc float_0_3) (azure_abc float_0_3)"
  let ?w = "walk_start (router_new cfg_short store_empty)"
  let ?ol = "\<lparr>ocr_text = [97, 98, 99], confidence = float_0_3, model = ''azure''\<rparr>"
  have len: "int (length (ocr_text (ocr_abc float_0_9))) = min_chars_for_confidence cfg_short"
    by (simp add: ocr_abc_def cfg_short_def)
  have sp: "\<not> list_all py_isspace (ocr_text (ocr_abc float_0_9))"
    by (simp add: ocr_abc_def py_isspace_def)
  have cf: "\<not> confidence (ocr_abc float_0_9) < min_confidence cfg_short"
    by (simp add: ocr_abc_def cfg_short_def cfg_default_def post_init_def)
  have enw: "enable_paddle (cfg (w_router ?w))" "enable_azure (cfg (w_router ?w))"
    by (simp_all add: walk_start_def router_new_def cfg_short_def cfg_default_def post_init_def)
  have rpl: "PaddleClient_run ?L [] = Inr (ocr_abc float_0_3)"
    by (simp add: PaddleClient_run_def env_fixed_def paddle_text_abc)
  have ral: "AzureVisionClient_run ?L [] = Inr ?ol"
    by (simp add: AzureVisionClient_run_def env_fixed_def azure_text_abc)
  have lowp: "spec_escalate ?L (cfg (w_router ?w)) (ocr_abc float_0_3) []"
    by (simp add: spec_escalate_def ocr_abc_def walk_start_def router_new_def cfg_short_def
        cfg_default_def post_init_def)
  have lowa: "spec_escalate ?L (cfg (w_router ?w)) ?ol []"
    by (simp add: spec_escalate_def walk_start_def router_new_def cfg_short_def cfg_default_def
        post_init_def)
  note S = escalation_predicate [where E = ?L and c = cfg_short and ocr = "ocr_abc float_0_9"
      and prev = "[]" and w = ?w and b = "[]" and ocr_p = "ocr_abc float_0_3" and u = "''u1''"
      and sh = "''s1''" and pp = "[]" and pa = "[]" and cb = None and ocr_a = ?ol]
  note s2 = S [THEN conjunct2, THEN conjunct1]
  note s3 = S [THEN conjunct2, THEN conjunct2, THEN conjunct1]
  note s4 = S [THEN conjunct2, THEN conjunct2, THEN conjunct2, THEN conjunct1]
  from s2 len sp cf have a1: "\<not> needs_escalation ?L cfg_short (ocr_abc float_0_9) []" by blast
  from s3 enw(1) rpl lowp
  have a2: "\<exists>w'. stage_body ?L ''u1'' [] ''s1'' [] [] None ''paddle'' ?w = Next w'" by blast
  from s4 enw(2) ral lowa
  have a3: "\<exists>w'. stage_body ?L ''u1'' [] ''s1'' [] [] None ''azure'' ?w = Next w'" by blast
  let ?E = "env_fixed (paddle_abc float_0_9) (azure_abc float_0_9)"
  let ?r = "router_new cfg_short store_tiers"
  let ?ra = "router_new cfg_azure_first store_tiers"
  let ?oa = "\<lparr>ocr_text = [97, 98, 99], confidence = float_0_9, model = ''azure''\<rparr>"
  let ?x = "check_or_escalate_exit ?E ?r ''u1'' ''s2'' None None"
  have ns: "\<not> screenshot_seen ?E (fp ?r) ''u1'' ''s2''" "\<not> screenshot_seen ?E (fp ?ra) ''u1'' ''s2''"
    by (simp_all add: screenshot_seen_def router_new_def store_tiers_def row_tiers_def or_empty_def
        img_sha_def env_fixed_def)
  have ph: "prev_hash (fp ?r) ''u1'' C_text_sha_paddle = ''ba7816bf''"
    "prev_hash (fp ?r) ''u1'' C_text_sha_azure = ''a1''"
    "prev_hash (fp ?ra) ''u1'' C_text_sha_azure = ''a1''"
    by (simp_all add: prev_hash_def router_new_def store_tiers_def row_tiers_def or_empty_def)
  have od: "order (cfg ?r) = ''paddle'' # [''azure'', ''gemini'']"
    "order (cfg ?ra) = ''azure'' # [''paddle'', ''gemini'']"
    by (simp_all add: router_new_def cfg_azure_first_def cfg_short_def cfg_default_def post_init_def)
  have en: "enable_paddle (cfg ?r)" "enable_azure (cfg ?ra)"
    by (simp_all add: router_new_def cfg_azure_first_def cfg_short_def cfg_default_def post_init_def)
  have rp: "PaddleClient_run ?E ''s2'' = Inr (ocr_abc float_0_9)"
    by (simp add: PaddleClient_run_def env_fixed_def paddle_text_abc)
  have rz: "AzureVisionClient_run ?E ''s2'' = Inr ?oa"
    by (simp add: AzureVisionClient_run_def env_fixed_def azure_text_abc)
  have ts: "text_sha ?E [97, 98, 99] = ''ba7816bf''"
    by (simp add: text_sha_def normalize_text_def py_isspace_def env_fixed_def)
  have same: "\<not> spec_escalate ?E (cfg ?r) (ocr_abc float_0_9) ''ba7816bf''"
    by (simp add: spec_escalate_def ocr_abc_def router_new_def cfg_short_def cfg_default_def
        post_init_def py_isspace_def text_sha_def normalize_text_def env_fixed_def)
  have differs: "spec_escalate ?E (cfg ?ra) ?oa ''a1''"
    by (simp add: spec_escalate_def router_new_def cfg_azure_first_def cfg_short_def
        cfg_default_def post_init_def py_isspace_def text_sha_def normalize_text_def env_fixed_def)
  have same': "\<not> spec_escalate ?E (cfg ?r) (ocr_abc float_0_9)
      (prev_hash (fp ?r) ''u1'' C_text_sha_paddle)" unfolding ph(1) by (rule same)
  have differs': "spec_escalate ?E (cfg ?ra) ?oa (prev_hash (fp ?ra) ''u1'' C_text_sha_azure)"
    unfolding ph(3) by (rule differs)
  note T = escalation_predicate [where E = ?E and u = "''u1''" and b = "''s2''" and p = None
      and cb = None and r = ?r and ocr_p = "ocr_abc float_0_9" and rest = "[''azure'', ''gemini'']"]
  note U = escalation_predicate [where E = ?E and u = "''u1''" and b = "''s2''" and p = None
      and cb = None and r = ?ra and ocr_a = ?oa and rest = "[''paddle'', ''gemini'']"]
  note t5 = T [THEN conjunct2, THEN conjunct2, THEN conjunct2, THEN conjunct2, THEN conjunct1]
  note t7 = T [THEN conjunct2, THEN conjunct2, THEN conjunct2, THEN conjunct2, THEN conjunct2,
      THEN conjunct2, THEN conjunct1]
  note t8 = U [THEN conjunct2, THEN conjunct2, THEN conjunct2, THEN conjunct2, THEN conjunct2,
      THEN conjunct2, THEN conjunct2]
  from t5 ns(1)
  have b1: "?x = walk ?E ''u1'' ''s2'' (img_sha ?E ''s2'')
      (prev_hash (fp ?r) ''u1'' C_text_sha_paddle) (prev_hash (fp ?r) ''u1'' C_text_sha_azure)
      None (order (cfg ?r)) (walk_start ?r)" by (rule mp)
  from t7 ns(1) od(1) en(1) rp same' obtain r1 where r1: "?x = (Inr (OkTier ''paddle''), r1)"
    by blast
  then have b2: "fst ?x = Inr (OkTier ''paddle'')" by simp
  note t6 = escalation_predicate [where E = ?E and u = "''u1''" and b = "''s2''" and p = None
      and cb = None and r = ?r and n = "''paddle''" and r' = r1, THEN conjunct2, THEN conjunct2,
      THEN conjunct2, THEN conjunct2, THEN conjunct2, THEN conjunct1]
  from t6 r1
  have "''paddle'' = ''paddle'' \<and> (\<exists>ocr. PaddleClient_run ?E ''s2'' = Inr ocr
            \<and> \<not> spec_escalate ?E (cfg ?r) ocr (prev_hash (fp ?r) ''u1'' C_text_sha_paddle))
        \<or> ''paddle'' = ''azure'' \<and> (\<exists>ocr. AzureVisionClient_run ?E ''s2'' = Inr ocr
            \<and> \<not> spec_escalate ?E (cfg ?r) ocr (prev_hash (fp ?r) ''u1'' C_text_sha_azure))"
    by (rule mp)
  then have b3: "\<exists>ocr. PaddleClient_run ?E ''s2'' = Inr ocr
      \<and> \<not> spec_escalate ?E (cfg ?r) ocr (prev_hash (fp ?r) ''u1'' C_text_sha_paddle)"
    by simp
  from t8 ns(2) od(2) en(2) rz differs'
  have "\<not> (\<exists>r'. check_or_escalate_exit ?E ?ra ''u1'' ''s2'' None None = (Inr (OkTier ''azure''), r'))"
    by blast
  then have b4: "fst (check_or_escalate_exit ?E ?ra ''u1'' ''s2'' None None) \<noteq> Inr (OkTier ''azure'')"
    by (metis prod.collapse)
  show ?thesis
    by (intro conjI len a1 enw rpl a2 ral a3 ns ph od en rp rz ts b1 b2 b3 b4)
qed

section \<open>Counters over a batch\<close>

lemma counts_of_kinds:
  "counts_of x = (if is_skip x then 1 else 0, if is_cheap x then 1 else 0,
                  if is_expensive x then 1 else 0)"
  by (cases x) (simp_all add: is_skip_def is_cheap_def is_expensive_def)

lemma length_filter_terminal:
  "length (filter terminal xs) =
     length (filter is_skip xs) + length (filter is_cheap xs) + length (filter is_expensive xs)"
proof (induction xs)
  case Nil
  show ?case by simp
next
  case (Cons x xs)
  then show ?case
    by (cases x) (simp_all add: terminal_def is_skip_def is_cheap_def is_expensive_def)
qed

lemma run_calls_summary:
  "run_calls r cs = (map Inr xs, r') \<Longrightarrow>
     summary r' = add3 (summary r)
       (int (length (filter is_skip xs)), int (length (filter is_cheap xs)),
        int (length (filter is_expensive xs)))"
proof (induction cs arbitrary: r xs)
  case Nil
  then show ?case by (auto simp: add3_def summary_def)
next
  case (Cons c cs)
  obtain res r1 where c1: "check_or_escalate_exit (c_env c) r (c_url c) (c_bytes c)
      (c_previous_fp c) (c_callback c) = (res, r1)" by fastforce
  obtain outs r2 where c2: "run_calls r1 cs = (outs, r2)" by fastforce
  from Cons.prems c1 c2 have eq: "res # outs = map Inr xs" "r2 = r'" by simp_all
  then obtain x xs' where xs: "xs = x # xs'" "res = Inr x" "outs = map Inr xs'"
    by (cases xs) auto
  from c2 eq xs have "run_calls r1 cs = (map Inr xs', r')" by simp
  from Cons.IH [OF this]
  have IH: "summary r' = add3 (summary r1)
       (int (length (filter is_skip xs')), int (length (filter is_cheap xs')),
        int (length (filter is_expensive xs')))" .
  from c1 xs have "summary r1 = add3 (summary r) (counts_of x)"
    using check_or_escalate_exit_summary [of "c_env c" r "c_url c" "c_bytes c" "c_previous_fp c"
        "c_callback c" x r1] by simp
  with IH xs show ?case
    by (simp add: add3_def counts_of_kinds)
qed

lemma noop_status:
  assumes "check_or_escalate E r u b p cb = (Inr d, r')" "status d = ''noop''"
  shows "summary r' = summary r"
proof -
  from assms(1) obtain x where x: "check_or_escalate_exit E r u b p cb = (Inr x, r')"
    "d = decision_of x"
    by (cases "check_or_escalate_exit E r u b p cb"; cases "fst (check_or_escalate_exit E r u b p cb)")
      (auto simp: check_or_escalate_def)
  from check_or_escalate_exit_summary [OF x(1)]
  have s: "summary r' = add3 (summary r) (counts_of x)"
    and n: "\<forall>s. x = OkTier s \<longrightarrow> s = ''paddle'' \<or> s = ''azure''" by simp_all
  from x(2) assms(2) n have "counts_of x = (0, 0, 0)"
    by (cases x) auto
  with s show ?thesis by (simp add: add3_def)
qed

section \<open>Counter conservation\<close>

text \<open>
  C7. Over any sequence of calls on one router none of which raises, \<open>skipped_nochange\<close>
  grows by the number of fast-path skips, \<open>used_cheap_ocr\<close> by the number of calls that an
  analyzer tier resolved without escalation, and \<open>escalated_to_gemini\<close> by the number of calls
  that reached the expensive tier. So each such call increments exactly its own counter and
  every other call none, and the sum of the three counters grows by the number of calls of
  these three kinds. A call that returns \<open>status = noop\<close> leaves the three counters as
  they were.
\<close>

theorem counter_conservation:
  "(run_calls r cs = (map Inr xs, r') \<longrightarrow>
      skipped_nochange r' = skipped_nochange r + int (length (filter is_skip xs))
      \<and> used_cheap_ocr r' = used_cheap_ocr r + int (length (filter is_cheap xs))
      \<and> escalated_to_gemini r' = escalated_to_gemini r + int (length (filter is_expensive xs))
      \<and> skipped_nochange r' + used_cheap_ocr r' + escalated_to_gemini r'
          = skipped_nochange r + used_cheap_ocr r + escalated_to_gemini r
            + int (length (filter terminal xs)))
   \<and> (check_or_escalate E r0 u b p cb = (Inr d, r1) \<and> status d = ''noop'' \<longrightarrow>
        skipped_nochange r1 = skipped_nochange r0 \<and> used_cheap_ocr r1 = used_cheap_ocr r0
        \<and> escalated_to_gemini r1 = escalated_to_gemini r0)"
proof (intro conjI impI)
  assume run: "run_calls r cs = (map Inr xs, r')"
  from run_calls_summary [OF run]
  show a: "skipped_nochange r' = skipped_nochange r + int (length (filter is_skip xs))"
    and b: "used_cheap_ocr r' = used_cheap_ocr r + int (length (filter is_cheap xs))"
    and c: "escalated_to_gemini r' = escalated_to_gemini r + int (length (filter is_expensive xs))"
    by (simp_all add: summary_def add3_def)
  from a b c show "skipped_nochange r' + used_cheap_ocr r' + escalated_to_gemini r'
          = skipped_nochange r + used_cheap_ocr r + escalated_to_gemini r
            + int (length (filter terminal xs))"
    by (simp add: length_filter_terminal)
next
  assume h: "check_or_escalate E r0 u b p cb = (Inr d, r1) \<and> status d = ''noop''"
  then have "summary r1 = summary r0" using noop_status [of E r0 u b p cb d r1] by simp
  then show "skipped_nochange r1 = skipped_nochange r0" "used_cheap_ocr r1 = used_cheap_ocr r0"
    "escalated_to_gemini r1 = escalated_to_gemini r0"
    by (simp_all add: summary_def)
qed

lemmas eval_defs =
  check_or_escalate_def check_or_escalate_exit_def get_def upsert_def assign_def img_sha_def
  text_sha_def normalize_text_def env_fixed_def router_new_def cfg_short_def cfg_default_def
  post_init_def store_empty_def stage_body_def ocr_tier_def gemini_tier_def PaddleClient_run_def
  AzureVisionClient_run_def paddle_text_abc azure_text_abc needs_escalation_def py_strip_def
  py_isspace_def record_escalation_def or_empty_def Let_def ocr_abc_def

lemma batch_eval:
  "fst (run_calls (router_new cfg_short store_empty) [call_good, call_good, call_low])
      = map Inr [OkTier ''paddle'', SkipNoChange, Extract [(''title'', ''coach'')]]"
  by (simp add: eval_defs call_good_def call_low_def)

lemma noop_eval:
  "check_or_escalate (env_fixed None None) (router_new cfg_off store_empty) ''u1'' ''s1'' None None
     = (Inr \<lparr>status = ''noop'', changed = True, d_fields = []\<rparr>, router_new cfg_off store_empty)"
  by (simp add: eval_defs cfg_off_def)

text \<open>
  Three calls on a fresh router, resolved by paddle, skipped, and extracted by the callback,
  leave each counter at 1; a call with every tier disabled returns \<open>noop\<close>.
\<close>

theorem counter_conservation_witness:
  "fst (run_calls (router_new cfg_short store_empty) [call_good, call_good, call_low])
      = map Inr [OkTier ''paddle'', SkipNoChange, Extract [(''title'', ''coach'')]]
   \<and> summary (snd (run_calls (router_new cfg_short store_empty) [call_good, call_good, call_low]))
      = (1, 1, 1)
   \<and> check_or_escalate (env_fixed None None) (router_new cfg_off store_empty) ''u1'' ''s1'' None None
      = (Inr \<lparr>status = ''noop'', changed = True, d_fields = []\<rparr>, router_new cfg_off store_empty)
   \<and> summary (router_new cfg_off store_empty) = (0, 0, 0)"
proof -
  let ?r = "router_new cfg_short store_empty"
  let ?cs = "[call_good, call_good, call_low]"
  let ?xs = "[OkTier ''paddle'', SkipNoChange, Extract [(''title'', ''coach'')]]"
  have run: "run_calls ?r ?cs = (map Inr ?xs, snd (run_calls ?r ?cs))"
    by (metis batch_eval prod.collapse)
  have k: "length (filter is_skip ?xs) = 1" "length (filter is_cheap ?xs) = 1"
    "length (filter is_expensive ?xs) = 1"
    by (simp_all add: is_skip_def is_cheap_def is_expensive_def)
  have z: "summary ?r = (0, 0, 0)" "summary (router_new cfg_off store_empty) = (0, 0, 0)"
    by (simp_all add: summary_def router_new_def)
  have st: "status \<lparr>status = ''noop'', changed = True, d_fields = []\<rparr> = ''noop''" by simp
  note T = counter_conservation [of ?r ?cs ?xs "snd (run_calls ?r ?cs)" "env_fixed None None"
      "router_new cfg_off store_empty" "''u1''" "''s1''" None None
      "\<lparr>status = ''noop'', changed = True, d_fields = []\<rparr>" "router_new cfg_off store_empty"]
  from T run k z have "summary (snd (run_calls ?r ?cs)) = (1, 1, 1)"
    by (simp add: summary_def)
  with batch_eval noop_eval z show ?thesis by simp
qed

section \<open>A callback that returns and one that raises\<close>

lemma gemini_tier_returns:
  "\<exists>db'. upsert (clock E (tick w)) u [(C_screenshot_sha, Some sh), (C_last_model, Some ''gemini'')]
             (fp (w_router w)) = Inr db'
         \<and> gemini_tier E (Some (Inr x)) u sh w =
             Done (Inr (Extract (or_empty x)))
               ((w_router w)\<lparr>escalated_to_gemini := escalated_to_gemini (w_router w) + 1,
                             fp := db'\<rparr>)"
proof -
  obtain db' where ups: "upsert (clock E (tick w)) u
      [(C_screenshot_sha, Some sh), (C_last_model, Some ''gemini'')] (fp (w_router w)) = Inr db'"
    using upsert_some_ok by blast
  then have "gemini_tier E (Some (Inr x)) u sh w =
             Done (Inr (Extract (or_empty x)))
               ((w_router w)\<lparr>escalated_to_gemini := escalated_to_gemini (w_router w) + 1,
                             fp := db'\<rparr>)"
    by (simp add: gemini_tier_def Let_def)
  with ups show ?thesis by blast
qed

lemma walk_callback_raises:
  "walk E u b sh pp pa (Some (Inr x)) stages w = (Inr (Extract fs), r2) \<Longrightarrow>
     \<exists>r1 t. walk E u b sh pp pa (Some (Inl e)) stages w = (Inl e, r1)
        \<and> upsert t u [(C_screenshot_sha, Some sh), (C_last_model, Some ''gemini'')] (fp r1)
            = Inr (fp r2)
        \<and> r2\<lparr>fp := fp r1\<rparr> = r1"
proof (induction stages arbitrary: w)
  case Nil
  then show ?case by (simp split: if_splits)
next
  case (Cons stage rest)
  let ?S = "Some (Inr x) :: callback option" and ?R = "Some (Inl e) :: callback option"
  show ?case
  proof (cases rule: stage_body_cases [of stage w E u b sh pp pa ?S])
    case paddle
    then have eq: "stage_body E u b sh pp pa ?R stage w = stage_body E u b sh pp pa ?S stage w"
      using stage_body_paddle [of w E u b sh pp pa ?R] by simp
    show ?thesis
    proof (cases "stage_body E u b sh pp pa ?S stage w")
      case (Next w')
      with Cons.prems have "walk E u b sh pp pa ?S rest w' = (Inr (Extract fs), r2)" by simp
      from Cons.IH [OF this] Next eq show ?thesis by simp
    next
      case (Done res r0)
      with Cons.prems have "stage_body E u b sh pp pa ?S stage w = Done (Inr (Extract fs)) r2"
        by simp
      with paddle(3) have "ocr_tier E ''paddle'' (PaddleClient_run E) C_text_sha_paddle pp u b sh
           (w\<lparr>last_stage := Some ''paddle''\<rparr>) = Done (Inr (Extract fs)) r2" by simp
      from ocr_tier_Done_summary [OF this] show ?thesis by simp
    qed
  next
    case azure
    then have eq: "stage_body E u b sh pp pa ?R stage w = stage_body E u b sh pp pa ?S stage w"
      using stage_body_azure [of w E u b sh pp pa ?R] by simp
    show ?thesis
    proof (cases "stage_body E u b sh pp pa ?S stage w")
      case (Next w')
      with Cons.prems have "walk E u b sh pp pa ?S rest w' = (Inr (Extract fs), r2)" by simp
      from Cons.IH [OF this] Next eq show ?thesis by simp
    next
      case (Done res r0)
      with Cons.prems have "stage_body E u b sh pp pa ?S stage w = Done (Inr (Extract fs)) r2"
        by simp
      with azure(3) have "ocr_tier E ''azure'' (AzureVisionClient_run E) C_text_sha_azure pa u b sh
           (w\<lparr>last_stage := Some ''azure''\<rparr>) = Done (Inr (Extract fs)) r2" by simp
      from ocr_tier_Done_summary [OF this] show ?thesis by simp
    qed
  next
    case gemini
    let ?w = "w\<lparr>last_stage := Some ''gemini''\<rparr>"
    let ?r = "(w_router w)\<lparr>escalated_to_gemini := escalated_to_gemini (w_router w) + 1\<rparr>"
    from gemini_tier_returns [of E ?w u sh x] obtain db' where
      ups: "upsert (clock E (tick w)) u [(C_screenshot_sha, Some sh), (C_last_model, Some ''gemini'')]
             (fp (w_router w)) = Inr db'"
      and g: "gemini_tier E ?S u sh ?w = Done (Inr (Extract (or_empty x))) (?r\<lparr>fp := db'\<rparr>)"
      by auto
    from gemini g Cons.prems have r2: "r2 = ?r\<lparr>fp := db'\<rparr>" by simp
    from gemini(1,2) have "stage_body E u b sh pp pa ?R stage w = gemini_tier E ?R u sh ?w"
      using stage_body_gemini [of w E u b sh pp pa ?R] by simp
    then have "walk E u b sh pp pa ?R (stage # rest) w = (Inl e, ?r)"
      by (simp add: gemini_tier_raise)
    moreover from ups r2 have "upsert (clock E (tick w)) u
        [(C_screenshot_sha, Some sh), (C_last_model, Some ''gemini'')] (fp ?r) = Inr (fp r2)"
      by simp
    moreover from r2 have "r2\<lparr>fp := fp ?r\<rparr> = ?r" by simp
    ultimately show ?thesis by blast
  next
    case skip
    then have eq: "stage_body E u b sh pp pa ?R stage w = Next (w\<lparr>last_stage := Some stage\<rparr>)"
      by (intro stage_body_skip) simp_all
    from skip(4) Cons.prems
    have "walk E u b sh pp pa ?S rest (w\<lparr>last_stage := Some stage\<rparr>) = (Inr (Extract fs), r2)"
      by simp
    from Cons.IH [OF this] eq show ?thesis by simp
  qed
qed

section \<open>A callback that raises\<close>

text \<open>
  C5. When the walk reaches the enabled gemini stage and the caller's callback raises, the
  call raises that exception and the router keeps the store it had when the stage began: the
  gemini update of \<open>screenshot_sha\<close> and \<open>last_model\<close> is not made (the counter
  \<open>escalated_to_gemini\<close> has been incremented by then). In particular, when gemini is the
  first stage of the order and the fast path does not apply, the store after the call is the
  store before it. And for any call: if the call reaches the expensive tier when the callback
  returns, then with a callback that raises it raises that exception, and the router it
  leaves is the one the other call leaves, except that the store lacks the gemini update.
\<close>

theorem expensive_callback_raises:
  "(enable_gemini (cfg (w_router w)) \<longrightarrow>
      walk E u b sh pp pa (Some (Inl e)) (''gemini'' # rest) w =
        (Inl e, (w_router w)\<lparr>escalated_to_gemini := escalated_to_gemini (w_router w) + 1\<rparr>))
   \<and> (enable_gemini (cfg r) \<and> order (cfg r) = ''gemini'' # rest
       \<and> (case pages (fp r) u of None \<Rightarrow> True
           | Some row \<Rightarrow> or_empty (r_cols row C_screenshot_sha) \<noteq> img_sha E b) \<longrightarrow>
      check_or_escalate E r u b p (Some (Inl e)) =
        (Inl e, r\<lparr>escalated_to_gemini := escalated_to_gemini r + 1\<rparr>))
   \<and> (check_or_escalate_exit E r0 u b p (Some (Inr x)) = (Inr (Extract fs), r2) \<longrightarrow>
        (\<exists>r1 t. check_or_escalate E r0 u b p (Some (Inl e)) = (Inl e, r1)
           \<and> upsert t u [(C_screenshot_sha, Some (img_sha E b)), (C_last_model, Some ''gemini'')]
                 (fp r1) = Inr (fp r2)
           \<and> r2\<lparr>fp := fp r1\<rparr> = r1))"
proof (intro conjI impI)
  assume en: "enable_gemini (cfg (w_router w))"
  then have "stage_body E u b sh pp pa (Some (Inl e)) ''gemini'' w =
      gemini_tier E (Some (Inl e)) u sh (w\<lparr>last_stage := Some ''gemini''\<rparr>)"
    by (rule stage_body_gemini)
  then show "walk E u b sh pp pa (Some (Inl e)) (''gemini'' # rest) w =
        (Inl e, (w_router w)\<lparr>escalated_to_gemini := escalated_to_gemini (w_router w) + 1\<rparr>)"
    by (simp add: gemini_tier_raise)
next
  assume h: "enable_gemini (cfg r) \<and> order (cfg r) = ''gemini'' # rest
       \<and> (case pages (fp r) u of None \<Rightarrow> True
           | Some row \<Rightarrow> or_empty (r_cols row C_screenshot_sha) \<noteq> img_sha E b)"
  let ?w = "\<lparr>w_router = r, ocr_used = False, last_stage = None, tick = 0\<rparr>"
  from h have nf: "\<not> (case get (fp r) u of Some p \<Rightarrow> screenshot_sha p = img_sha E b | None \<Rightarrow> False)"
    by (simp add: get_def split: option.splits)
  from h have "stage_body E u b (img_sha E b)
      (case get (fp r) u of Some p \<Rightarrow> text_sha_paddle p | None \<Rightarrow> [])
      (case get (fp r) u of Some p \<Rightarrow> text_sha_azure p | None \<Rightarrow> [])
      (Some (Inl e)) ''gemini'' ?w =
      gemini_tier E (Some (Inl e)) u (img_sha E b) (?w\<lparr>last_stage := Some ''gemini''\<rparr>)"
    by (intro stage_body_gemini) simp
  with h nf show "check_or_escalate E r u b p (Some (Inl e)) =
        (Inl e, r\<lparr>escalated_to_gemini := escalated_to_gemini r + 1\<rparr>)"
    by (simp add: check_or_escalate_def check_or_escalate_exit_def Let_def gemini_tier_raise)
next
  assume a: "check_or_escalate_exit E r0 u b p (Some (Inr x)) = (Inr (Extract fs), r2)"
  let ?pp = "case get (fp r0) u of Some p \<Rightarrow> text_sha_paddle p | None \<Rightarrow> []"
  let ?pa = "case get (fp r0) u of Some p \<Rightarrow> text_sha_azure p | None \<Rightarrow> []"
  let ?w = "\<lparr>w_router = r0, ocr_used = False, last_stage = None, tick = 0\<rparr>"
  have nf: "\<not> (case get (fp r0) u of Some p \<Rightarrow> screenshot_sha p = img_sha E b | None \<Rightarrow> False)"
  proof
    assume "case get (fp r0) u of Some p \<Rightarrow> screenshot_sha p = img_sha E b | None \<Rightarrow> False"
    with a show False
      by (auto simp: check_or_escalate_exit_def Let_def split: sum.splits)
  qed
  with a have "walk E u b (img_sha E b) ?pp ?pa (Some (Inr x)) (order (cfg r0)) ?w
      = (Inr (Extract fs), r2)"
    by (simp add: check_or_escalate_exit_def Let_def)
  from walk_callback_raises [OF this, of e] obtain r1 t where
    w: "walk E u b (img_sha E b) ?pp ?pa (Some (Inl e)) (order (cfg r0)) ?w = (Inl e, r1)"
    and k: "upsert t u [(C_screenshot_sha, Some (img_sha E b)), (C_last_model, Some ''gemini'')]
                 (fp r1) = Inr (fp r2)" "r2\<lparr>fp := fp r1\<rparr> = r1"
    by blast
  from nf w have "check_or_escalate E r0 u b p (Some (Inl e)) = (Inl e, r1)"
    by (simp add: check_or_escalate_def check_or_escalate_exit_def Let_def)
  with k show "\<exists>r1 t. check_or_escalate E r0 u b p (Some (Inl e)) = (Inl e, r1)
           \<and> upsert t u [(C_screenshot_sha, Some (img_sha E b)), (C_last_model, Some ''gemini'')]
                 (fp r1) = Inr (fp r2)
           \<and> r2\<lparr>fp := fp r1\<rparr> = r1"
    by blast
qed

lemma callback_returns_eval:
  "fst (check_or_escalate_exit (env_fixed None None) (router_new cfg_default store_empty)
          ''u1'' ''s2'' None (Some (Inr None))) = Inr (Extract [])"
  by (simp add: eval_defs paddle_text_def paddle_collect_def azure_text_def azure_collect_def)

theorem expensive_callback_raises_witness:
  "enable_gemini (cfg (router_new cfg_gemini_first store_seen))
   \<and> order (cfg (router_new cfg_gemini_first store_seen)) = ''gemini'' # [''paddle'', ''azure'']
   \<and> pages (fp (router_new cfg_gemini_first store_seen)) ''u1'' = Some row_seen
   \<and> or_empty (r_cols row_seen C_screenshot_sha) \<noteq> img_sha (env_fixed None None) ''s2''
   \<and> fst (check_or_escalate (env_fixed None None) (router_new cfg_gemini_first store_seen)
         ''u1'' ''s2'' None (Some (Inl (External ''TimeoutError''))))
       = Inl (External ''TimeoutError'')
   \<and> fp (snd (check_or_escalate (env_fixed None None) (router_new cfg_gemini_first store_seen)
         ''u1'' ''s2'' None (Some (Inl (External ''TimeoutError''))))) = store_seen
   \<and> walk (env_fixed None None) ''u1'' ''s2'' ''s2'' [] [] (Some (Inl (External ''TimeoutError'')))
        (''gemini'' # [''paddle'', ''azure'']) (walk_start (router_new cfg_gemini_first store_seen))
       = (Inl (External ''TimeoutError''),
          (router_new cfg_gemini_first store_seen)\<lparr>escalated_to_gemini := 1\<rparr>)
   \<and> fst (check_or_escalate_exit (env_fixed None None) (router_new cfg_default store_empty)
          ''u1'' ''s2'' None (Some (Inr None))) = Inr (Extract [])
   \<and> fst (check_or_escalate (env_fixed None None) (router_new cfg_default store_empty)
          ''u1'' ''s2'' None (Some (Inl (External ''TimeoutError''))))
       = Inl (External ''TimeoutError'')"
proof -
  let ?r = "router_new cfg_gemini_first store_seen"
  let ?fresh = "router_new cfg_default store_empty"
  let ?E = "env_fixed None None"
  let ?x = "check_or_escalate_exit ?E ?fresh ''u1'' ''s2'' None (Some (Inr None))"
  have en: "enable_gemini (cfg ?r)" "enable_gemini (cfg (w_router (walk_start ?r)))"
    by (simp_all add: router_new_def cfg_gemini_first_def cfg_default_def post_init_def
        walk_start_def)
  have ord: "order (cfg ?r) = ''gemini'' # [''paddle'', ''azure'']"
    by (simp add: router_new_def cfg_gemini_first_def)
  have pg: "pages (fp ?r) ''u1'' = Some row_seen"
    by (simp add: router_new_def store_seen_def)
  have ne: "or_empty (r_cols row_seen C_screenshot_sha) \<noteq> img_sha ?E ''s2''"
    by (simp add: row_seen_def or_empty_def img_sha_def env_fixed_def)
  have ok: "?x = (Inr (Extract []), snd ?x)"
    by (metis callback_returns_eval prod.collapse)
  note T = expensive_callback_raises [where w = "walk_start ?r" and E = ?E and u = "''u1''"
      and b = "''s2''" and sh = "''s2''" and pp = "[]" and pa = "[]"
      and e = "External ''TimeoutError''" and rest = "[''paddle'', ''azure'']" and r = ?r
      and p = None and ?r0.0 = ?fresh and x = None and fs = "[]" and ?r2.0 = "snd ?x"]
  from T ok obtain r1 where "check_or_escalate ?E ?fresh ''u1'' ''s2'' None
      (Some (Inl (External ''TimeoutError''))) = (Inl (External ''TimeoutError''), r1)"
    by blast
  then have rs: "fst (check_or_escalate ?E ?fresh ''u1'' ''s2'' None
      (Some (Inl (External ''TimeoutError'')))) = Inl (External ''TimeoutError'')"
    by simp
  from T en ord pg ne have "fst (check_or_escalate ?E ?r ''u1'' ''s2'' None
         (Some (Inl (External ''TimeoutError'')))) = Inl (External ''TimeoutError'')"
    "fp (snd (check_or_escalate ?E ?r ''u1'' ''s2'' None
         (Some (Inl (External ''TimeoutError''))))) = store_seen"
    "walk ?E ''u1'' ''s2'' ''s2'' [] [] (Some (Inl (External ''TimeoutError'')))
        (''gemini'' # [''paddle'', ''azure'']) (walk_start ?r)
       = (Inl (External ''TimeoutError''), ?r\<lparr>escalated_to_gemini := 1\<rparr>)"
    by (simp_all add: router_new_def walk_start_def)
  with en ord pg ne rs callback_returns_eval show ?thesis by blast
qed

section \<open>The stage a walk ends on\<close>

lemma stage_body_Next_used:
  assumes "stage_body E u b sh pp pa cb stage w = Next w'"
  shows "last_stage w' = Some stage \<and> cfg (w_router w') = cfg (w_router w)
         \<and> (ocr_used w' \<longleftrightarrow> ocr_used w \<or> tier_runs (cfg (w_router w)) stage)"
proof (cases rule: stage_body_cases [of stage w E u b sh pp pa cb])
  case paddle
  with assms have "ocr_tier E ''paddle'' (PaddleClient_run E) C_text_sha_paddle pp u b sh
           (w\<lparr>last_stage := Some ''paddle''\<rparr>) = Next w'" by simp
  then show ?thesis using paddle(1,2) by (elim ocr_tier_Next) (simp add: tier_runs_def)
next
  case azure
  with assms have "ocr_tier E ''azure'' (AzureVisionClient_run E) C_text_sha_azure pa u b sh
           (w\<lparr>last_stage := Some ''azure''\<rparr>) = Next w'" by simp
  then show ?thesis using azure(1,2) by (elim ocr_tier_Next) (simp add: tier_runs_def)
next
  case gemini
  with assms have "gemini_tier E cb u sh (w\<lparr>last_stage := Some ''gemini''\<rparr>) = Next w'" by simp
  then show ?thesis by (simp add: gemini_tier_not_Next)
next
  case skip
  with assms show ?thesis by (auto simp: tier_runs_def)
qed

lemma run_stages_Next:
  "run_stages E u b sh pp pa cb stages w = Next w' \<Longrightarrow>
     cfg (w_router w') = cfg (w_router w)
     \<and> last_stage w' = (if stages = [] then last_stage w else Some (last stages))
     \<and> (ocr_used w' \<longleftrightarrow> ocr_used w \<or> (\<exists>stage\<in>set stages. tier_runs (cfg (w_router w)) stage))"
proof (induction stages arbitrary: w)
  case Nil
  then show ?case by simp
next
  case (Cons stage rest)
  show ?case
  proof (cases "stage_body E u b sh pp pa cb stage w")
    case (Next w1)
    with Cons.prems have run: "run_stages E u b sh pp pa cb rest w1 = Next w'" by simp
    from stage_body_Next_used [OF Next]
    have l: "last_stage w1 = Some stage" "cfg (w_router w1) = cfg (w_router w)"
      "ocr_used w1 \<longleftrightarrow> ocr_used w \<or> tier_runs (cfg (w_router w)) stage" by simp_all
    from Cons.IH [OF run] l show ?thesis by auto
  next
    case (Done res r0)
    with Cons.prems show ?thesis by simp
  qed
qed

section \<open>Exhaustion of the order\<close>

text \<open>
  C3, as amended. When the screenshot is new, the loop visits every stage of the order
  without a tier returning or raising, and an analyzer tier ran (the flag \<open>ocr_used\<close> is
  set, which is the case exactly when the order contains an enabled analyzer tier), the call
  returns \<open>changed = True\<close>, no fields, and as status the last entry of the configured
  order: the last stage the loop visited, whether or not that stage is enabled or ran
  (\<open>ocr\<close> if that entry is the empty string). The router is left as the loop left it.
\<close>

theorem exhaustion_status:
  assumes ns: "\<not> screenshot_seen E (fp r) u b"
    and run: "run_stages E u b (img_sha E b) (prev_hash (fp r) u C_text_sha_paddle)
        (prev_hash (fp r) u C_text_sha_azure) cb (order (cfg r)) (walk_start r) = Next w'"
    and ran: "ocr_used w' \<or> tiers_run (cfg r) \<noteq> []"
  shows "ocr_used w' \<and> tiers_run (cfg r) \<noteq> [] \<and> order (cfg r) \<noteq> []
     \<and> check_or_escalate E r u b p cb
         = (Inr \<lparr>status = (if last (order (cfg r)) = [] then ''ocr'' else last (order (cfg r))),
                 changed = True, d_fields = []\<rparr>, w_router w')"
proof -
  from run_stages_Next [OF run]
  have ls: "last_stage w' = (if order (cfg r) = [] then None else Some (last (order (cfg r))))"
    and us: "ocr_used w' \<longleftrightarrow> (\<exists>stage\<in>set (order (cfg r)). tier_runs (cfg r) stage)"
    by (simp_all add: walk_start_def)
  have tr: "tiers_run (cfg r) \<noteq> [] \<longleftrightarrow> (\<exists>stage\<in>set (order (cfg r)). tier_runs (cfg r) stage)"
    by (auto simp: tiers_run_def filter_empty_conv)
  from ran us tr have used: "ocr_used w'" and t: "tiers_run (cfg r) \<noteq> []" by auto
  from used us have ne: "order (cfg r) \<noteq> []" by auto
  from check_or_escalate_exit_walk [OF ns, of p cb] run
  have "check_or_escalate_exit E r u b p cb
      = walk E u b (img_sha E b) (prev_hash (fp r) u C_text_sha_paddle)
          (prev_hash (fp r) u C_text_sha_azure) cb [] w'"
    by (simp add: walk_run_stages [of E u b _ _ _ cb "order (cfg r)"])
  with used ls ne have "check_or_escalate_exit E r u b p cb
      = (Inr (ChangedOcr (if last (order (cfg r)) = [] then ''ocr'' else last (order (cfg r)))),
         w_router w')" by simp
  then have "check_or_escalate E r u b p cb
         = (Inr \<lparr>status = (if last (order (cfg r)) = [] then ''ocr'' else last (order (cfg r))),
                 changed = True, d_fields = []\<rparr>, w_router w')"
    by (simp add: check_or_escalate_def)
  with used t ne show ?thesis by simp
qed

lemma exhaustion_eval:
  "check_or_escalate_exit (env_fixed (paddle_abc float_0_3) None)
      (router_new cfg_paddle_only store_empty) ''u1'' ''s1'' None None
   = (Inr (ChangedOcr ''gemini''),
      router_new cfg_paddle_only
        (store_empty\<lparr>pages := [''u1'' \<mapsto> \<lparr>r_first_seen = Some 1700000000,
            r_last_seen = Some 1700000000,
            r_cols = (\<lambda>c. None)(C_screenshot_sha := Some ''s1'',
                        C_text_sha_paddle := Some ''ba7816bf'', C_last_model := Some ''paddle'')\<rparr>],
          escalations := [\<lparr>esc_ts = 1700000001, esc_url = ''u1'', esc_from_model = ''paddle'',
            esc_to_model = ''next'', esc_reason = ''low_conf_or_changed'', esc_conf = float_0_3,
            esc_chars = 3\<rparr>]\<rparr>))"
  by (simp add: eval_defs cfg_paddle_only_def)

text \<open>
  C3 as stated fails: with the default order and only paddle enabled, a paddle result of
  low confidence makes the call return \<open>status = gemini\<close>, while the only tier that ran,
  hence the last, is paddle.
\<close>

theorem exhaustion_status_counterexample:
  "fst (check_or_escalate (env_fixed (paddle_abc float_0_3) None)
          (router_new cfg_paddle_only store_empty) ''u1'' ''s1'' None None)
     = Inr \<lparr>status = ''gemini'', changed = True, d_fields = []\<rparr>
   \<and> tiers_run (cfg (router_new cfg_paddle_only store_empty)) = [''paddle'']
   \<and> fst (check_or_escalate (env_fixed (paddle_abc float_0_3) None)
          (router_new cfg_paddle_only store_empty) ''u1'' ''s1'' None None)
     \<noteq> Inr \<lparr>status = last (tiers_run (cfg (router_new cfg_paddle_only store_empty))),
             changed = True, d_fields = []\<rparr>"
proof -
  have t: "tiers_run (cfg (router_new cfg_paddle_only store_empty)) = [''paddle'']"
    by (simp add: tiers_run_def tier_runs_def router_new_def cfg_paddle_only_def cfg_short_def
        cfg_default_def post_init_def)
  have d: "fst (check_or_escalate (env_fixed (paddle_abc float_0_3) None)
          (router_new cfg_paddle_only store_empty) ''u1'' ''s1'' None None)
     = Inr \<lparr>status = ''gemini'', changed = True, d_fields = []\<rparr>"
    by (simp add: check_or_escalate_def exhaustion_eval)
  show ?thesis unfolding t d by simp
qed

lemma exhaustion_stages_eval:
  "run_stages (env_fixed (paddle_abc float_0_3) None) ''u1'' ''s1'' ''s1'' [] [] None
      [''paddle'', ''azure'', ''gemini''] (walk_start (router_new cfg_paddle_only store_empty))
   = Next \<lparr>w_router = router_new cfg_paddle_only
        (store_empty\<lparr>pages := [''u1'' \<mapsto> \<lparr>r_first_seen = Some 1700000000,
            r_last_seen = Some 1700000000,
            r_cols = (\<lambda>c. None)(C_screenshot_sha := Some ''s1'',
                        C_text_sha_paddle := Some ''ba7816bf'', C_last_model := Some ''paddle'')\<rparr>],
          escalations := [\<lparr>esc_ts = 1700000001, esc_url = ''u1'', esc_from_model = ''paddle'',
            esc_to_model = ''next'', esc_reason = ''low_conf_or_changed'', esc_conf = float_0_3,
            esc_chars = 3\<rparr>]\<rparr>),
      ocr_used = True, last_stage = Some ''gemini'', tick = 2\<rparr>"
  by (simp add: eval_defs cfg_paddle_only_def walk_start_def)

theorem exhaustion_status_witness:
  "\<not> screenshot_seen (env_fixed (paddle_abc float_0_3) None)
        (fp (router_new cfg_paddle_only store_empty)) ''u1'' ''s1''
   \<and> order (cfg (router_new cfg_paddle_only store_empty)) = [''paddle'', ''azure'', ''gemini'']
   \<and> tiers_run (cfg (router_new cfg_paddle_only store_empty)) = [''paddle'']
   \<and> check_or_escalate (env_fixed (paddle_abc float_0_3) None)
          (router_new cfg_paddle_only store_empty) ''u1'' ''s1'' None None
     = (Inr \<lparr>status = ''gemini'', changed = True, d_fields = []\<rparr>,
        router_new cfg_paddle_only
        (store_empty\<lparr>pages := [''u1'' \<mapsto> \<lparr>r_first_seen = Some 1700000000,
            r_last_seen = Some 1700000000,
            r_cols = (\<lambda>c. None)(C_screenshot_sha := Some ''s1'',
                        C_text_sha_paddle := Some ''ba7816bf'', C_last_model := Some ''paddle'')\<rparr>],
          escalations := [\<lparr>esc_ts = 1700000001, esc_url = ''u1'', esc_from_model = ''paddle'',
            esc_to_model = ''next'', esc_reason = ''low_conf_or_changed'', esc_conf = float_0_3,
            esc_chars = 3\<rparr>]\<rparr>))"
proof -
  let ?E = "env_fixed (paddle_abc float_0_3) None"
  let ?r = "router_new cfg_paddle_only store_empty"
  let ?w = "\<lparr>w_router = router_new cfg_paddle_only
        (store_empty\<lparr>pages := [''u1'' \<mapsto> \<lparr>r_first_seen = Some 1700000000,
            r_last_seen = Some 1700000000,
            r_cols = (\<lambda>c. None)(C_screenshot_sha := Some ''s1'',
                        C_text_sha_paddle := Some ''ba7816bf'', C_last_model := Some ''paddle'')\<rparr>],
          escalations := [\<lparr>esc_ts = 1700000001, esc_url = ''u1'', esc_from_model = ''paddle'',
            esc_to_model = ''next'', esc_reason = ''low_conf_or_changed'', esc_conf = float_0_3,
            esc_chars = 3\<rparr>]\<rparr>),
      ocr_used = True, last_stage = Some ''gemini'', tick = 2\<rparr>"
  have ns: "\<not> screenshot_seen ?E (fp ?r) ''u1'' ''s1''"
    by (simp add: screenshot_seen_def router_new_def store_empty_def)
  have od: "order (cfg ?r) = [''paddle'', ''azure'', ''gemini'']"
    by (simp add: router_new_def cfg_paddle_only_def cfg_short_def cfg_default_def post_init_def)
  have t: "tiers_run (cfg ?r) = [''paddle'']"
    by (simp add: tiers_run_def tier_runs_def router_new_def cfg_paddle_only_def cfg_short_def
        cfg_default_def post_init_def)
  have sh: "img_sha ?E ''s1'' = ''s1''" by (simp add: img_sha_def env_fixed_def)
  have ph: "prev_hash (fp ?r) ''u1'' C_text_sha_paddle = []"
    "prev_hash (fp ?r) ''u1'' C_text_sha_azure = []"
    by (simp_all add: prev_hash_def router_new_def store_empty_def)
  have run: "run_stages ?E ''u1'' ''s1'' (img_sha ?E ''s1'')
      (prev_hash (fp ?r) ''u1'' C_text_sha_paddle) (prev_hash (fp ?r) ''u1'' C_text_sha_azure)
      None (order (cfg ?r)) (walk_start ?r) = Next ?w"
    unfolding sh ph od by (rule exhaustion_stages_eval)
  have ran: "ocr_used ?w \<or> tiers_run (cfg ?r) \<noteq> []" by simp
  from exhaustion_status [OF ns run ran, of None] ns od t show ?thesis by simp
qed

section \<open>Rows appended to the escalation log\<close>

lemma events_added_refl: "events_added u db db"
  by (simp add: events_added_def)

lemma events_added_same: "escalations db' = escalations db \<Longrightarrow> events_added u db db'"
  by (simp add: events_added_def)

lemma events_added_trans:
  "events_added u db1 db2 \<Longrightarrow> events_added u db2 db3 \<Longrightarrow> events_added u db1 db3"
proof -
  assume a: "events_added u db1 db2" and b: "events_added u db2 db3"
  let ?e1 = "escalations db1" and ?e2 = "escalations db2" and ?e3 = "escalations db3"
  from a obtain n2 where e2: "?e2 = ?e1 @ n2" "list_all (router_event u) n2"
    unfolding events_added_def by (metis append_take_drop_id)
  from b obtain n3 where e3: "?e3 = ?e2 @ n3" "list_all (router_event u) n3"
    unfolding events_added_def by (metis append_take_drop_id)
  from e2 e3 show ?thesis by (simp add: events_added_def)
qed

lemma upsert_escalations:
  "upsert now u kvs db = Inr db' \<Longrightarrow> escalations db' = escalations db \<and> runs db' = runs db"
  by (auto simp: upsert_def Let_def split: option.splits if_splits)

lemma record_escalation_added:
  "from_model = ''paddle'' \<or> from_model = ''azure'' \<Longrightarrow>
   events_added u db (record_escalation now u from_model ''next'' ''low_conf_or_changed'' info db)"
  by (auto simp: events_added_def record_escalation_def router_event_def)

lemma ocr_tier_events:
  assumes "name = ''paddle'' \<or> name = ''azure''"
  shows "ocr_tier E name run col prev u b sh w = Next w' \<Longrightarrow>
           events_added u (fp (w_router w)) (fp (w_router w'))"
    and "ocr_tier E name run col prev u b sh w = Done res r' \<Longrightarrow>
           events_added u (fp (w_router w)) (fp r')"
proof -
  assume "ocr_tier E name run col prev u b sh w = Next w'"
  then show "events_added u (fp (w_router w)) (fp (w_router w'))"
  proof (rule ocr_tier_Next)
    fix ocr db'
    assume ups: "upsert (clock E (tick w)) u [(C_screenshot_sha, Some sh),
           (col, Some (text_sha E (ocr_text ocr))), (C_last_model, Some name)] (fp (w_router w)) = Inr db'"
      and w': "w' = w\<lparr>w_router := (w_router w)\<lparr>fp :=
                   record_escalation (clock E (tick w + 1)) u name ''next'' ''low_conf_or_changed''
                     (confidence ocr, int (length (ocr_text ocr))) db'\<rparr>,
                 ocr_used := True, tick := tick w + 2\<rparr>"
    from upsert_escalations [OF ups] have "events_added u (fp (w_router w)) db'"
      by (simp add: events_added_same)
    moreover from assms have "events_added u db'
        (record_escalation (clock E (tick w + 1)) u name ''next'' ''low_conf_or_changed''
                     (confidence ocr, int (length (ocr_text ocr))) db')"
      by (rule record_escalation_added)
    ultimately show ?thesis using w' by (auto intro: events_added_trans)
  qed
next
  assume "ocr_tier E name run col prev u b sh w = Done res r'"
  then show "events_added u (fp (w_router w)) (fp r')"
  proof (rule ocr_tier_Done)
    fix e assume "r' = w_router w"
    then show ?thesis by (simp add: events_added_refl)
  next
    fix ocr db'
    assume ups: "upsert (clock E (tick w)) u [(C_screenshot_sha, Some sh),
           (col, Some (text_sha E (ocr_text ocr))), (C_last_model, Some name)] (fp (w_router w)) = Inr db'"
      and r': "r' = (w_router w)\<lparr>fp := db', used_cheap_ocr := used_cheap_ocr (w_router w) + 1\<rparr>"
    from upsert_escalations [OF ups] r' show ?thesis by (simp add: events_added_same)
  qed
qed

lemma gemini_tier_events:
  assumes "gemini_tier E cb u sh w = Done res r'"
  shows "events_added u (fp (w_router w)) (fp r')"
  using assms
proof (rule gemini_tier_Done)
  fix e assume "r' = (w_router w)\<lparr>escalated_to_gemini := escalated_to_gemini (w_router w) + 1\<rparr>"
  then show ?thesis by (simp add: events_added_refl)
next
  fix fs db'
  assume ups: "upsert (clock E (tick w)) u [(C_screenshot_sha, Some sh), (C_last_model, Some ''gemini'')]
           (fp (w_router w)) = Inr db'"
    and r': "r' = (w_router w)\<lparr>escalated_to_gemini := escalated_to_gemini (w_router w) + 1, fp := db'\<rparr>"
  from upsert_escalations [OF ups] r' show ?thesis by (simp add: events_added_same)
qed

lemma stage_body_events:
  shows "stage_body E u b sh pp pa cb stage w = Next w' \<Longrightarrow>
           events_added u (fp (w_router w)) (fp (w_router w'))"
    and "stage_body E u b sh pp pa cb stage w = Done res r' \<Longrightarrow>
           events_added u (fp (w_router w)) (fp r')"
proof -
  assume n: "stage_body E u b sh pp pa cb stage w = Next w'"
  show "events_added u (fp (w_router w)) (fp (w_router w'))"
  proof (cases rule: stage_body_cases [of stage w E u b sh pp pa cb])
    case paddle
    with n have "ocr_tier E ''paddle'' (PaddleClient_run E) C_text_sha_paddle pp u b sh
           (w\<lparr>last_stage := Some ''paddle''\<rparr>) = Next w'" by simp
    from ocr_tier_events(1) [OF _ this] show ?thesis by simp
  next
    case azure
    with n have "ocr_tier E ''azure'' (AzureVisionClient_run E) C_text_sha_azure pa u b sh
           (w\<lparr>last_stage := Some ''azure''\<rparr>) = Next w'" by simp
    from ocr_tier_events(1) [OF _ this] show ?thesis by simp
  next
    case gemini
    with n have "gemini_tier E cb u sh (w\<lparr>last_stage := Some ''gemini''\<rparr>) = Next w'" by simp
    then show ?thesis by (simp add: gemini_tier_not_Next)
  next
    case skip
    with n show ?thesis by (auto simp: events_added_refl)
  qed
next
  assume d: "stage_body E u b sh pp pa cb stage w = Done res r'"
  show "events_added u (fp (w_router w)) (fp r')"
  proof (cases rule: stage_body_cases [of stage w E u b sh pp pa cb])
    case paddle
    with d have "ocr_tier E ''paddle'' (PaddleClient_run E) C_text_sha_paddle pp u b sh
           (w\<lparr>last_stage := Some ''paddle''\<rparr>) = Done res r'" by simp
    from ocr_tier_events(2) [OF _ this] show ?thesis by simp
  next
    case azure
    with d have "ocr_tier E ''azure'' (AzureVisionClient_run E) C_text_sha_azure pa u b sh
           (w\<lparr>last_stage := Some ''azure''\<rparr>) = Done res r'" by simp
    from ocr_tier_events(2) [OF _ this] show ?thesis by simp
  next
    case gemini
    with d have "gemini_tier E cb u sh (w\<lparr>last_stage := Some ''gemini''\<rparr>) = Done res r'" by simp
    from gemini_tier_events [OF this] show ?thesis by simp
  next
    case skip
    with d show ?thesis by simp
  qed
qed

lemma walk_events:
  assumes "walk E u b sh pp pa cb stages w = (res, r')"
  shows "events_added u (fp (w_router w)) (fp r')"
proof -
  let ?I = "\<lambda>w'. events_added u (fp (w_router w)) (fp (w_router w'))"
  let ?Q = "\<lambda>(res :: exn + exit) r'. events_added u (fp (w_router w)) (fp r')"
  have S: "?I w2" if "?I w1" "stage_body E u b sh pp pa cb stage w1 = Next w2" for stage w1 w2
    using that stage_body_events(1) [of E u b sh pp pa cb stage w1 w2]
    by (auto intro: events_added_trans)
  have F: "?Q res r1" if "?I w1" "stage_body E u b sh pp pa cb stage w1 = Done res r1"
    for stage w1 res r1
    using that stage_body_events(2) [of E u b sh pp pa cb stage w1 res r1]
    by (auto intro: events_added_trans)
  have X: "?Q (fst (walk E u b sh pp pa cb [] w1)) (snd (walk E u b sh pp pa cb [] w1))"
    if "?I w1" for w1
    using that by auto
  have I0: "?I w" by (simp add: events_added_refl)
  from walk_rule [where I = ?I and Q = ?Q, OF S F X I0 assms] show ?thesis by simp
qed

section \<open>Escalation events\<close>

text \<open>
  C4, as amended. Every row that a call appends to \<open>escalations\<close>, whatever the call returns
  or raises, has the reason \<open>low_conf_or_changed\<close>, \<open>to_model = next\<close>, the URL of the call and
  \<open>from_model\<close> paddle or azure; the rows that were there before stay in place. The reason is
  the same whichever clause of the escalation predicate fired.
\<close>

theorem escalation_reason_fixed:
  "check_or_escalate E r u b p cb = (res, r') \<Longrightarrow>
     take (length (escalations (fp r))) (escalations (fp r')) = escalations (fp r)
     \<and> list_all (router_event u) (drop (length (escalations (fp r))) (escalations (fp r')))"
proof -
  assume a: "check_or_escalate E r u b p cb = (res, r')"
  then obtain res0 where x: "check_or_escalate_exit E r u b p cb = (res0, r')"
    by (cases "check_or_escalate_exit E r u b p cb") (auto simp: check_or_escalate_def)
  have "events_added u (fp r) (fp r')"
  proof (cases "case get (fp r) u of Some p \<Rightarrow> screenshot_sha p = img_sha E b | None \<Rightarrow> False")
    case True
    show ?thesis
    proof (cases "upsert (clock E 0) u [(C_screenshot_sha, Some (img_sha E b))] (fp r)")
      case (Inl e)
      with x True have "r' = r\<lparr>skipped_nochange := skipped_nochange r + 1\<rparr>"
        by (simp add: check_or_escalate_exit_def Let_def)
      then show ?thesis by (simp add: events_added_refl)
    next
      case (Inr db')
      with x True have "fp r' = db'" by (auto simp add: check_or_escalate_exit_def Let_def)
      with upsert_escalations [OF Inr] show ?thesis by (simp add: events_added_same)
    qed
  next
    case False
    with x have "walk E u b (img_sha E b)
      (case get (fp r) u of Some p \<Rightarrow> text_sha_paddle p | None \<Rightarrow> [])
      (case get (fp r) u of Some p \<Rightarrow> text_sha_azure p | None \<Rightarrow> []) cb (order (cfg r))
      \<lparr>w_router = r, ocr_used = False, last_stage = None, tick = 0\<rparr> = (res0, r')"
      by (simp add: check_or_escalate_exit_def Let_def)
    from walk_events [OF this] show ?thesis by simp
  qed
  then show ?thesis
    by (simp add: events_added_def)
qed

lemma scenario_c_eval:
  "check_or_escalate (env_fixed (paddle_abc float_0_3) (azure_abc float_0_9))
      (router_new cfg_short store_empty) ''u1'' ''s1'' None None
   = (Inr \<lparr>status = ''azure'', changed = False, d_fields = []\<rparr>,
      \<lparr>fp = store_empty\<lparr>pages := [''u1'' \<mapsto> \<lparr>r_first_seen = Some 1700000000,
            r_last_seen = Some 1700000002,
            r_cols = (\<lambda>c. None)(C_screenshot_sha := Some ''s1'',
                        C_text_sha_paddle := Some ''ba7816bf'', C_last_model := Some ''azure'',
                        C_text_sha_azure := Some ''ba7816bf'')\<rparr>],
          escalations := [\<lparr>esc_ts = 1700000001, esc_url = ''u1'', esc_from_model = ''paddle'',
            esc_to_model = ''next'', esc_reason = ''low_conf_or_changed'', esc_conf = float_0_3,
            esc_chars = 3\<rparr>]\<rparr>,
       cfg = cfg_short, skipped_nochange = 0, used_cheap_ocr = 1, escalated_to_gemini = 0\<rparr>)"
  by (simp add: eval_defs fun_upd_twist)

text \<open>
  C4 as stated fails: paddle returns confidence 0.3 on a text that is long enough for the
  configured threshold, the tier escalates, and the one row written has the reason
  \<open>low_conf_or_changed\<close>, which is none of the three reasons of the specification.
\<close>

theorem escalation_reason_counterexample:
  "confidence (ocr_abc float_0_3) < min_confidence cfg_short
   \<and> \<not> int (length (ocr_text (ocr_abc float_0_3))) < min_chars_for_confidence cfg_short
   \<and> PaddleClient_run (env_fixed (paddle_abc float_0_3) (azure_abc float_0_9)) ''s1''
       = Inr (ocr_abc float_0_3)
   \<and> map esc_reason (escalations (fp (snd (check_or_escalate
         (env_fixed (paddle_abc float_0_3) (azure_abc float_0_9))
         (router_new cfg_short store_empty) ''u1'' ''s1'' None None))))
       = [''low_conf_or_changed'']
   \<and> ''low_conf_or_changed'' \<notin> set spec_reasons"
proof (intro conjI)
  show "confidence (ocr_abc float_0_3) < min_confidence cfg_short"
    by (simp add: ocr_abc_def cfg_short_def cfg_default_def post_init_def)
  show "\<not> int (length (ocr_text (ocr_abc float_0_3))) < min_chars_for_confidence cfg_short"
    by (simp add: ocr_abc_def cfg_short_def)
  show "PaddleClient_run (env_fixed (paddle_abc float_0_3) (azure_abc float_0_9)) ''s1''
       = Inr (ocr_abc float_0_3)"
    by (simp add: PaddleClient_run_def env_fixed_def paddle_text_abc)
  show "map esc_reason (escalations (fp (snd (check_or_escalate
         (env_fixed (paddle_abc float_0_3) (azure_abc float_0_9))
         (router_new cfg_short store_empty) ''u1'' ''s1'' None None))))
       = [''low_conf_or_changed'']"
    by (simp add: scenario_c_eval)
  show "''low_conf_or_changed'' \<notin> set spec_reasons"
    by (simp add: spec_reasons_def)
qed

theorem escalation_reason_fixed_witness:
  "check_or_escalate (env_fixed (paddle_abc float_0_3) (azure_abc float_0_9))
      (router_new cfg_short store_empty) ''u1'' ''s1'' None None
    = (Inr \<lparr>status = ''azure'', changed = False, d_fields = []\<rparr>,
       snd (check_or_escalate (env_fixed (paddle_abc float_0_3) (azure_abc float_0_9))
      (router_new cfg_short store_empty) ''u1'' ''s1'' None None))
   \<and> length (escalations (fp (snd (check_or_escalate
         (env_fixed (paddle_abc float_0_3) (azure_abc float_0_9))
         (router_new cfg_short store_empty) ''u1'' ''s1'' None None)))) = 1
   \<and> list_all (router_event ''u1'') (escalations (fp (snd (check_or_escalate
         (env_fixed (paddle_abc float_0_3) (azure_abc float_0_9))
         (router_new cfg_short store_empty) ''u1'' ''s1'' None None))))"
proof -
  let ?c = "check_or_escalate (env_fixed (paddle_abc float_0_3) (azure_abc float_0_9))
      (router_new cfg_short store_empty) ''u1'' ''s1'' None None"
  have h: "?c = (Inr \<lparr>status = ''azure'', changed = False, d_fields = []\<rparr>, snd ?c)"
    by (simp add: scenario_c_eval)
  have l: "length (escalations (fp (snd ?c))) = 1" by (simp add: scenario_c_eval)
  have z: "escalations (fp (router_new cfg_short store_empty)) = []"
    by (simp add: router_new_def store_empty_def)
  from escalation_reason_fixed [OF h] z h l show ?thesis by simp
qed

section \<open>Columns a call leaves alone\<close>

lemma kept_refl: "kept c db db"
  by (simp add: kept_def)

lemma kept_trans: "kept c db1 db2 \<Longrightarrow> kept c db2 db3 \<Longrightarrow> kept c db1 db3"
  by (simp add: kept_def)

lemma assign_other: "c \<notin> fst ` set kvs \<Longrightarrow> assign kvs f c = f c"
  unfolding assign_def by (induction kvs arbitrary: f) auto

lemma upsert_existing:
  assumes "pages db u = Some row" "upsert now u kvs db = Inr db'"
  shows "pages db' = (pages db)(u \<mapsto> row\<lparr>r_cols := assign (filter (\<lambda>(k, v). v \<noteq> None) kvs) (r_cols row),
                                           r_last_seen := Some now\<rparr>)"
    and "escalations db' = escalations db" and "runs db' = runs db"
    and "supplied kvs \<noteq> []"
  using assms by (auto simp: upsert_def get_def Let_def supplied_def split: if_splits)

lemma upsert_existing_fails:
  assumes "pages db u = Some row" "upsert now u kvs db = Inl e"
  shows "supplied kvs = [] \<and> e = OperationalError"
  using assms by (auto simp: upsert_def get_def Let_def supplied_def split: if_splits)

lemma upsert_new:
  assumes "pages db u = None" "upsert now u kvs db = Inr db'"
  shows "pages db' = (pages db)(u \<mapsto> \<lparr>r_first_seen = Some now, r_last_seen = Some now,
           r_cols = assign (filter (\<lambda>(k, v). v \<noteq> None) kvs) (\<lambda>c. None)\<rparr>)"
  using assms by (auto simp: upsert_def get_def Let_def)

lemma upsert_kept:
  assumes "upsert now u kvs db = Inr db'" "c \<notin> set (supplied kvs)"
  shows "kept c db db'"
proof (cases "pages db u")
  case None
  from upsert_new [OF None assms(1)] None show ?thesis
    by (auto simp: kept_def cell_def)
next
  case (Some row)
  from assms(2) have "c \<notin> fst ` set (filter (\<lambda>(k, v). v \<noteq> None) kvs)"
    by (simp add: supplied_def)
  then have "assign (filter (\<lambda>(k, v). v \<noteq> None) kvs) (r_cols row) c = r_cols row c"
    by (rule assign_other)
  with upsert_existing(1) [OF Some assms(1)] Some show ?thesis
    by (auto simp: kept_def cell_def)
qed

lemma record_escalation_kept: "kept c db (record_escalation now u f t rs info db)"
  by (simp add: kept_def cell_def record_escalation_def)

lemma ocr_tier_kept:
  assumes "c \<noteq> col" "c \<noteq> C_screenshot_sha" "c \<noteq> C_last_model"
  shows "kept c (fp (w_router w)) (fp (router_after (ocr_tier E name run col prev u b sh w)))"
proof (cases "ocr_tier E name run col prev u b sh w")
  case (Next w')
  then show ?thesis
  proof (rule ocr_tier_Next)
    fix ocr db'
    assume ups: "upsert (clock E (tick w)) u [(C_screenshot_sha, Some sh),
           (col, Some (text_sha E (ocr_text ocr))), (C_last_model, Some name)] (fp (w_router w)) = Inr db'"
      and w': "w' = w\<lparr>w_router := (w_router w)\<lparr>fp :=
                   record_escalation (clock E (tick w + 1)) u name ''next'' ''low_conf_or_changed''
                     (confidence ocr, int (length (ocr_text ocr))) db'\<rparr>,
                 ocr_used := True, tick := tick w + 2\<rparr>"
    from assms have "kept c (fp (w_router w)) db'"
      by (intro upsert_kept [OF ups]) (simp add: supplied_def)
    then have "kept c (fp (w_router w)) (fp (w_router w'))"
      using w' by (auto intro: kept_trans record_escalation_kept)
    with Next show ?thesis by (simp add: router_after_def)
  qed
next
  case (Done res r')
  then show ?thesis
  proof (rule ocr_tier_Done)
    fix e assume "r' = w_router w"
    with Done show ?thesis by (simp add: router_after_def kept_refl)
  next
    fix ocr db'
    assume ups: "upsert (clock E (tick w)) u [(C_screenshot_sha, Some sh),
           (col, Some (text_sha E (ocr_text ocr))), (C_last_model, Some name)] (fp (w_router w)) = Inr db'"
      and r': "r' = (w_router w)\<lparr>fp := db', used_cheap_ocr := used_cheap_ocr (w_router w) + 1\<rparr>"
    from assms have "kept c (fp (w_router w)) db'"
      by (intro upsert_kept [OF ups]) (simp add: supplied_def)
    with Done r' show ?thesis by (simp add: router_after_def)
  qed
qed

lemma gemini_tier_kept:
  assumes "c \<noteq> C_screenshot_sha" "c \<noteq> C_last_model"
  shows "kept c (fp (w_router w)) (fp (router_after (gemini_tier E cb u sh w)))"
proof (cases "gemini_tier E cb u sh w")
  case (Next w')
  then show ?thesis by (simp add: gemini_tier_not_Next)
next
  case (Done res r')
  then show ?thesis
  proof (rule gemini_tier_Done)
    fix e assume "r' = (w_router w)\<lparr>escalated_to_gemini := escalated_to_gemini (w_router w) + 1\<rparr>"
    with Done show ?thesis by (simp add: router_after_def kept_refl)
  next
    fix fs db'
    assume ups: "upsert (clock E (tick w)) u [(C_screenshot_sha, Some sh), (C_last_model, Some ''gemini'')]
           (fp (w_router w)) = Inr db'"
      and r': "r' = (w_router w)\<lparr>escalated_to_gemini := escalated_to_gemini (w_router w) + 1, fp := db'\<rparr>"
    from assms have "kept c (fp (w_router w)) db'"
      by (intro upsert_kept [OF ups]) (simp add: supplied_def)
    with Done r' show ?thesis by (simp add: router_after_def)
  qed
qed

lemma stage_body_kept_paddle:
  assumes "stage \<noteq> ''paddle'' \<or> \<not> enable_paddle (cfg (w_router w))"
  shows "kept C_text_sha_paddle (fp (w_router w))
           (fp (router_after (stage_body E u b sh pp pa cb stage w)))"
proof (cases rule: stage_body_cases [of stage w E u b sh pp pa cb])
  case paddle
  with assms show ?thesis by simp
next
  case azure
  then show ?thesis
    using ocr_tier_kept [of C_text_sha_paddle C_text_sha_azure "w\<lparr>last_stage := Some ''azure''\<rparr>"
        E "''azure''" "AzureVisionClient_run E" pa u b sh] by simp
next
  case gemini
  then show ?thesis
    using gemini_tier_kept [of C_text_sha_paddle "w\<lparr>last_stage := Some ''gemini''\<rparr>" E cb u sh]
    by simp
next
  case skip
  then show ?thesis by (simp add: router_after_def kept_refl)
qed

lemma stage_body_kept_azure:
  assumes "stage \<noteq> ''azure'' \<or> \<not> enable_azure (cfg (w_router w))"
  shows "kept C_text_sha_azure (fp (w_router w))
           (fp (router_after (stage_body E u b sh pp pa cb stage w)))"
proof (cases rule: stage_body_cases [of stage w E u b sh pp pa cb])
  case paddle
  then show ?thesis
    using ocr_tier_kept [of C_text_sha_azure C_text_sha_paddle "w\<lparr>last_stage := Some ''paddle''\<rparr>"
        E "''paddle''" "PaddleClient_run E" pp u b sh] by simp
next
  case azure
  with assms show ?thesis by simp
next
  case gemini
  then show ?thesis
    using gemini_tier_kept [of C_text_sha_azure "w\<lparr>last_stage := Some ''gemini''\<rparr>" E cb u sh]
    by simp
next
  case skip
  then show ?thesis by (simp add: router_after_def kept_refl)
qed

lemma assign_Cons: "assign ((k, v) # kvs) f = assign kvs (f(k := v))"
  by (simp add: assign_def)

lemma assign_distinct:
  "distinct (map fst kvs) \<Longrightarrow> (c, x) \<in> set kvs \<Longrightarrow> assign kvs f c = x"
proof (induction kvs arbitrary: f)
  case Nil
  then show ?case by simp
next
  case (Cons kv kvs)
  obtain k v where kv: "kv = (k, v)" by (cases kv)
  show ?case
  proof (cases "(c, x) \<in> set kvs")
    case True
    with Cons.prems have "assign kvs (f(k := v)) c = x" by (intro Cons.IH) simp_all
    with kv show ?thesis by (simp only: assign_Cons)
  next
    case False
    with Cons.prems kv have e: "k = c" "v = x" and n: "c \<notin> fst ` set kvs" by auto
    from n have "assign kvs (f(k := v)) c = (f(k := v)) c" by (rule assign_other)
    with e kv show ?thesis by (simp only: assign_Cons fun_upd_same)
  qed
qed

lemma walk_kept:
  assumes dis: "\<And>stage (w1 :: walk_state). cfg (w_router w1) = cfg (w_router w) \<Longrightarrow>
            kept c (fp (w_router w1)) (fp (router_after (stage_body E u b sh pp pa cb stage w1)))"
    and run: "walk E u b sh pp pa cb stages w = (res, r')"
  shows "kept c (fp (w_router w)) (fp r')"
proof -
  let ?I = "\<lambda>w'. kept c (fp (w_router w)) (fp (w_router w')) \<and> cfg (w_router w') = cfg (w_router w)"
  let ?Q = "\<lambda>(res :: exn + exit) r'. kept c (fp (w_router w)) (fp r')"
  have S: "?I w2" if "?I w1" "stage_body E u b sh pp pa cb stage w1 = Next w2" for stage w1 w2
  proof -
    from that(1) have "kept c (fp (w_router w1)) (fp (router_after (stage_body E u b sh pp pa cb stage w1)))"
      by (intro dis) simp
    with that(2) have "kept c (fp (w_router w1)) (fp (w_router w2))" by (simp add: router_after_def)
    with that(1) have "kept c (fp (w_router w)) (fp (w_router w2))" by (auto intro: kept_trans)
    moreover from stage_body_Next_summary [OF that(2)] that(1)
    have "cfg (w_router w2) = cfg (w_router w)" by simp
    ultimately show ?thesis by simp
  qed
  have F: "?Q res r1" if "?I w1" "stage_body E u b sh pp pa cb stage w1 = Done res r1"
    for stage w1 res r1
  proof -
    from that(1) have "kept c (fp (w_router w1)) (fp (router_after (stage_body E u b sh pp pa cb stage w1)))"
      by (intro dis) simp
    with that(2) have "kept c (fp (w_router w1)) (fp r1)" by (simp add: router_after_def)
    with that(1) show ?thesis by (auto intro: kept_trans)
  qed
  have X: "?Q (fst (walk E u b sh pp pa cb [] w1)) (snd (walk E u b sh pp pa cb [] w1))"
    if "?I w1" for w1
    using that by auto
  have I0: "?I w" by (simp add: kept_refl)
  from walk_rule [where I = ?I and Q = ?Q, OF S F X I0 run] show ?thesis by simp
qed

lemma check_or_escalate_kept:
  assumes c: "c \<noteq> C_screenshot_sha"
    and dis: "\<And>stage (w1 :: walk_state) sh pp pa. cfg (w_router w1) = cfg r \<Longrightarrow>
            kept c (fp (w_router w1)) (fp (router_after (stage_body E u b sh pp pa cb stage w1)))"
  shows "kept c (fp r) (fp (snd (check_or_escalate E r u b p cb)))"
proof -
  obtain res0 r' where x: "check_or_escalate_exit E r u b p cb = (res0, r')" by fastforce
  then have s: "snd (check_or_escalate E r u b p cb) = r'" by (simp add: check_or_escalate_def)
  have "kept c (fp r) (fp r')"
  proof (cases "case get (fp r) u of Some p \<Rightarrow> screenshot_sha p = img_sha E b | None \<Rightarrow> False")
    case True
    show ?thesis
    proof (cases "upsert (clock E 0) u [(C_screenshot_sha, Some (img_sha E b))] (fp r)")
      case (Inl e)
      with x True have "r' = r\<lparr>skipped_nochange := skipped_nochange r + 1\<rparr>"
        by (simp add: check_or_escalate_exit_def Let_def)
      then show ?thesis by (simp add: kept_refl)
    next
      case (Inr db')
      with x True have "fp r' = db'" by (auto simp add: check_or_escalate_exit_def Let_def)
      moreover from c have "kept c (fp r) db'"
        by (intro upsert_kept [OF Inr]) (simp add: supplied_def)
      ultimately show ?thesis by simp
    qed
  next
    case False
    with x have "walk E u b (img_sha E b)
      (case get (fp r) u of Some p \<Rightarrow> text_sha_paddle p | None \<Rightarrow> [])
      (case get (fp r) u of Some p \<Rightarrow> text_sha_azure p | None \<Rightarrow> []) cb (order (cfg r))
      \<lparr>w_router = r, ocr_used = False, last_stage = None, tick = 0\<rparr> = (res0, r')"
      by (simp add: check_or_escalate_exit_def Let_def)
    from walk_kept [OF _ this, of c] dis show ?thesis by simp
  qed
  with s show ?thesis by simp
qed

section \<open>The frame of a store update\<close>

text \<open>
  On a row that exists, a call of \<open>upsert\<close> that succeeds changes the columns supplied in the
  call and \<open>last_seen\<close>, which becomes the current time, and nothing else: every column not
  supplied and \<open>first_seen\<close> keep their values, supplied columns take the supplied values,
  other rows and the two logs are untouched; it fails only when the call supplies no column.
  Consequently the azure stage leaves \<open>text_sha_paddle\<close> of every existing row as it was and the paddle stage
  leaves \<open>text_sha_azure\<close>, and a call on a router whose paddle (azure) tier is disabled leaves
  \<open>text_sha_paddle\<close> (\<open>text_sha_azure\<close>) of every existing row as it was, whatever the call
  returns or raises.
\<close>

theorem upsert_frame:
  "(pages db u = Some row \<and> upsert now u kvs db = Inr db' \<longrightarrow>
      (\<exists>row'. pages db' u = Some row' \<and> r_last_seen row' = Some now
          \<and> r_first_seen row' = r_first_seen row
          \<and> (\<forall>c. c \<notin> set (supplied kvs) \<longrightarrow> r_cols row' c = r_cols row c)
          \<and> (\<forall>c x. distinct (map fst kvs) \<and> (c, Some x) \<in> set kvs \<longrightarrow> r_cols row' c = Some x))
      \<and> (\<forall>v. v \<noteq> u \<longrightarrow> pages db' v = pages db v)
      \<and> escalations db' = escalations db \<and> runs db' = runs db)
   \<and> (pages db u = Some row \<and> upsert now u kvs0 db = Inl e \<longrightarrow> supplied kvs0 = [])
   \<and> (pages (fp (w_router w)) v \<noteq> None \<longrightarrow>
        cell (fp (router_after (stage_body E u b sh pp pa cb ''azure'' w))) v C_text_sha_paddle
          = cell (fp (w_router w)) v C_text_sha_paddle)
   \<and> (pages (fp (w_router w)) v \<noteq> None \<longrightarrow>
        cell (fp (router_after (stage_body E u b sh pp pa cb ''paddle'' w))) v C_text_sha_azure
          = cell (fp (w_router w)) v C_text_sha_azure)
   \<and> (pages (fp r1) v \<noteq> None \<and> \<not> enable_paddle (cfg r1) \<longrightarrow>
        cell (fp (snd (check_or_escalate E r1 u b p cb))) v C_text_sha_paddle
          = cell (fp r1) v C_text_sha_paddle)
   \<and> (pages (fp r2) v \<noteq> None \<and> \<not> enable_azure (cfg r2) \<longrightarrow>
        cell (fp (snd (check_or_escalate E r2 u b p cb))) v C_text_sha_azure
          = cell (fp r2) v C_text_sha_azure)"
proof (intro conjI impI)
  assume h: "pages db u = Some row \<and> upsert now u kvs db = Inr db'"
  let ?kvs = "filter (\<lambda>(k, v). v \<noteq> None) kvs"
  let ?row' = "row\<lparr>r_cols := assign ?kvs (r_cols row), r_last_seen := Some now\<rparr>"
  from h have pg: "pages db' = (pages db)(u \<mapsto> ?row')"
    and ot: "escalations db' = escalations db" "runs db' = runs db"
    using upsert_existing [of db u row now kvs db'] by simp_all
  have fr: "\<forall>c. c \<notin> set (supplied kvs) \<longrightarrow> r_cols ?row' c = r_cols row c"
    using assign_other [of _ ?kvs "r_cols row"] by (simp add: supplied_def)
  have su: "\<forall>c x. distinct (map fst kvs) \<and> (c, Some x) \<in> set kvs \<longrightarrow> r_cols ?row' c = Some x"
  proof (intro allI impI)
    fix c x assume a: "distinct (map fst kvs) \<and> (c, Some x) \<in> set kvs"
    then have "distinct (map fst ?kvs)" "(c, Some x) \<in> set ?kvs"
      by (simp_all add: distinct_map_filter)
    then have "assign ?kvs (r_cols row) c = Some x" by (rule assign_distinct)
    then show "r_cols ?row' c = Some x" by simp
  qed
  from pg fr su
  show "\<exists>row'. pages db' u = Some row' \<and> r_last_seen row' = Some now
          \<and> r_first_seen row' = r_first_seen row
          \<and> (\<forall>c. c \<notin> set (supplied kvs) \<longrightarrow> r_cols row' c = r_cols row c)
          \<and> (\<forall>c x. distinct (map fst kvs) \<and> (c, Some x) \<in> set kvs \<longrightarrow> r_cols row' c = Some x)"
    by (intro exI [of _ ?row']) simp
  from pg show "\<forall>v. v \<noteq> u \<longrightarrow> pages db' v = pages db v" by simp
  from ot show "escalations db' = escalations db" "runs db' = runs db" by simp_all
next
  assume "pages db u = Some row \<and> upsert now u kvs0 db = Inl e"
  then show "supplied kvs0 = []" using upsert_existing_fails [of db u row now kvs0 e] by simp
next
  assume "pages (fp (w_router w)) v \<noteq> None"
  then show "cell (fp (router_after (stage_body E u b sh pp pa cb ''azure'' w))) v C_text_sha_paddle
          = cell (fp (w_router w)) v C_text_sha_paddle"
    using stage_body_kept_paddle [of "''azure''" w E u b sh pp pa cb] by (simp add: kept_def)
next
  assume "pages (fp (w_router w)) v \<noteq> None"
  then show "cell (fp (router_after (stage_body E u b sh pp pa cb ''paddle'' w))) v C_text_sha_azure
          = cell (fp (w_router w)) v C_text_sha_azure"
    using stage_body_kept_azure [of "''paddle''" w E u b sh pp pa cb] by (simp add: kept_def)
next
  assume h: "pages (fp r1) v \<noteq> None \<and> \<not> enable_paddle (cfg r1)"
  have "kept C_text_sha_paddle (fp r1) (fp (snd (check_or_escalate E r1 u b p cb)))"
  proof (rule check_or_escalate_kept)
    show "C_text_sha_paddle \<noteq> C_screenshot_sha" by simp
  next
    fix stage sh pp pa and w1 :: walk_state
    assume "cfg (w_router w1) = cfg r1"
    with h show "kept C_text_sha_paddle (fp (w_router w1))
        (fp (router_after (stage_body E u b sh pp pa cb stage w1)))"
      by (intro stage_body_kept_paddle) simp
  qed
  with h show "cell (fp (snd (check_or_escalate E r1 u b p cb))) v C_text_sha_paddle
          = cell (fp r1) v C_text_sha_paddle"
    by (simp add: kept_def)
next
  assume h: "pages (fp r2) v \<noteq> None \<and> \<not> enable_azure (cfg r2)"
  have "kept C_text_sha_azure (fp r2) (fp (snd (check_or_escalate E r2 u b p cb)))"
  proof (rule check_or_escalate_kept)
    show "C_text_sha_azure \<noteq> C_screenshot_sha" by simp
  next
    fix stage sh pp pa and w1 :: walk_state
    assume "cfg (w_router w1) = cfg r2"
    with h show "kept C_text_sha_azure (fp (w_router w1))
        (fp (router_after (stage_body E u b sh pp pa cb stage w1)))"
      by (intro stage_body_kept_azure) simp
  qed
  with h show "cell (fp (snd (check_or_escalate E r2 u b p cb))) v C_text_sha_azure
          = cell (fp r2) v C_text_sha_azure"
    by (simp add: kept_def)
qed

theorem upsert_frame_witness:
  "pages store_seen ''u1'' = Some row_seen
   \<and> upsert 1700000005 ''u1'' kvs_azure store_seen = Inr store_azure
   \<and> C_text_sha_paddle \<notin> set (supplied kvs_azure)
   \<and> cell store_azure ''u1'' C_text_sha_paddle = Some (Some ''p1'')
   \<and> cell store_azure ''u1'' C_text_sha_azure = Some (Some ''a2'')
   \<and> pages store_azure ''u2'' = pages store_seen ''u2''
   \<and> upsert 1700000005 ''u1'' [(C_etag, None)] store_seen = Inl OperationalError
   \<and> supplied [(C_etag, None)] = []
   \<and> cell (fp (router_after (stage_body (env_fixed (paddle_abc float_0_9) (azure_abc float_0_9))
          ''u1'' ''s2'' ''s2'' ''p1'' ''a1'' None ''azure''
          (walk_start (router_new cfg_short store_seen))))) ''u1'' C_text_sha_paddle
       = Some (Some ''p1'')
   \<and> cell (fp (router_after (stage_body (env_fixed (paddle_abc float_0_9) (azure_abc float_0_9))
          ''u1'' ''s2'' ''s2'' ''p1'' ''a1'' None ''paddle''
          (walk_start (router_new cfg_short store_seen))))) ''u1'' C_text_sha_azure
       = Some (Some ''a1'')
   \<and> \<not> enable_paddle (cfg (router_new cfg_no_paddle store_seen))
   \<and> cell (fp (snd (check_or_escalate (env_fixed (paddle_abc float_0_9) (azure_abc float_0_9))
          (router_new cfg_no_paddle store_seen) ''u1'' ''s2'' None None))) ''u1'' C_text_sha_paddle
       = Some (Some ''p1'')
   \<and> \<not> enable_azure (cfg (router_new cfg_no_azure store_seen))
   \<and> cell (fp (snd (check_or_escalate (env_fixed (paddle_abc float_0_9) (azure_abc float_0_9))
          (router_new cfg_no_azure store_seen) ''u1'' ''s2'' None None))) ''u1'' C_text_sha_azure
       = Some (Some ''a1'')"
proof -
  let ?E = "env_fixed (paddle_abc float_0_9) (azure_abc float_0_9)"
  let ?w = "walk_start (router_new cfg_short store_seen)"
  let ?r1 = "router_new cfg_no_paddle store_seen"
  let ?r2 = "router_new cfg_no_azure store_seen"
  have pg: "pages store_seen ''u1'' = Some row_seen" by (simp add: store_seen_def)
  have up: "upsert 1700000005 ''u1'' kvs_azure store_seen = Inr store_azure"
    by (simp add: upsert_def get_def assign_def kvs_azure_def store_azure_def store_seen_def)
  have fl: "upsert 1700000005 ''u1'' [(C_etag, None)] store_seen = Inl OperationalError"
    by (simp add: upsert_def get_def store_seen_def)
  have ns: "C_text_sha_paddle \<notin> set (supplied kvs_azure)"
    by (simp add: supplied_def kvs_azure_def)
  have di: "distinct (map fst kvs_azure)" "(C_text_sha_azure, Some ''a2'') \<in> set kvs_azure"
    by (simp_all add: kvs_azure_def)
  have ex: "pages (fp (w_router ?w)) ''u1'' \<noteq> None" "pages (fp ?r1) ''u1'' \<noteq> None"
    "pages (fp ?r2) ''u1'' \<noteq> None"
    by (simp_all add: walk_start_def router_new_def store_seen_def)
  have en: "\<not> enable_paddle (cfg ?r1)" "\<not> enable_azure (cfg ?r2)"
    by (simp_all add: router_new_def cfg_no_paddle_def cfg_no_azure_def)
  have c0: "cell (fp (w_router ?w)) ''u1'' C_text_sha_paddle = Some (Some ''p1'')"
    "cell (fp (w_router ?w)) ''u1'' C_text_sha_azure = Some (Some ''a1'')"
    "cell (fp ?r1) ''u1'' C_text_sha_paddle = Some (Some ''p1'')"
    "cell (fp ?r2) ''u1'' C_text_sha_azure = Some (Some ''a1'')"
    "r_cols row_seen C_text_sha_paddle = Some ''p1''"
    by (simp_all add: cell_def walk_start_def router_new_def store_seen_def row_seen_def)
  note T = upsert_frame [where db = store_seen and u = "''u1''" and row = row_seen
      and now = 1700000005 and kvs = kvs_azure and db' = store_azure
      and ?kvs0.0 = "[(C_etag, None)]" and e = OperationalError and w = ?w and v = "''u1''"
      and E = ?E and b = "''s2''" and sh = "''s2''" and pp = "''p1''" and pa = "''a1''"
      and cb = None and ?r1.0 = ?r1 and ?r2.0 = ?r2 and p = None]
  from T pg up have "\<exists>row'. pages store_azure ''u1'' = Some row'
      \<and> (\<forall>c. c \<notin> set (supplied kvs_azure) \<longrightarrow> r_cols row' c = r_cols row_seen c)
      \<and> (\<forall>c x. distinct (map fst kvs_azure) \<and> (c, Some x) \<in> set kvs_azure \<longrightarrow> r_cols row' c = Some x)"
    by blast
  with ns di c0(5) have a: "cell store_azure ''u1'' C_text_sha_paddle = Some (Some ''p1'')"
    "cell store_azure ''u1'' C_text_sha_azure = Some (Some ''a2'')"
    by (auto simp: cell_def)
  from T pg fl have b: "supplied [(C_etag, None)] = []" by blast
  from T pg up have "\<forall>v. v \<noteq> ''u1'' \<longrightarrow> pages store_azure v = pages store_seen v" by blast
  then have o: "pages store_azure ''u2'' = pages store_seen ''u2''" by simp
  from T ex c0 en show ?thesis using pg up fl ns a b o by simp
qed

section \<open>An update that supplies no column\<close>

text \<open>
  C6 fails on the code at one kind of call. On a row that exists, \<open>upsert\<close> with no keyword,
  or with keywords whose values are all \<open>None\<close>, builds the statement
  \<open>UPDATE pages SET , last_seen=? WHERE url=?\<close>: the call raises \<open>OperationalError\<close> and writes
  nothing, so \<open>last_seen\<close> is not refreshed. These are the only such calls: a call that
  supplies a column succeeds and leaves \<open>last_seen\<close> at the current time.
\<close>

theorem upsert_without_fields_raises:
  assumes "pages db u = Some row"
  shows "(upsert now u kvs db = Inl OperationalError \<longleftrightarrow> supplied kvs = [])
     \<and> ((\<exists>db' row'. upsert now u kvs db = Inr db' \<and> pages db' u = Some row'
            \<and> r_last_seen row' = Some now) \<longleftrightarrow> supplied kvs \<noteq> [])"
  using assms by (simp add: upsert_def get_def Let_def supplied_def)

theorem upsert_without_fields_raises_witness:
  "pages store_seen ''u1'' = Some row_seen
   \<and> r_last_seen row_seen = Some 1600000000
   \<and> supplied [] = []
   \<and> upsert 1700000005 ''u1'' [] store_seen = Inl OperationalError
   \<and> supplied [(C_etag, None)] = []
   \<and> upsert 1700000005 ''u1'' [(C_etag, None)] store_seen = Inl OperationalError
   \<and> supplied kvs_azure = [C_screenshot_sha, C_text_sha_azure, C_last_model]
   \<and> (\<exists>db' row'. upsert 1700000005 ''u1'' kvs_azure store_seen = Inr db'
          \<and> pages db' ''u1'' = Some row' \<and> r_last_seen row' = Some 1700000005)"
proof -
  have pg: "pages store_seen ''u1'' = Some row_seen" by (simp add: store_seen_def)
  have ls: "r_last_seen row_seen = Some 1600000000" by (simp add: row_seen_def)
  have s1: "supplied [] = []" by (simp add: supplied_def)
  have s2: "supplied [(C_etag, None)] = []" by (simp add: supplied_def)
  have s3: "supplied kvs_azure = [C_screenshot_sha, C_text_sha_azure, C_last_model]"
    by (simp add: supplied_def kvs_azure_def)
  note T1 = upsert_without_fields_raises [OF pg, of 1700000005 "[]"]
  note T2 = upsert_without_fields_raises [OF pg, of 1700000005 "[(C_etag, None)]"]
  note T3 = upsert_without_fields_raises [OF pg, of 1700000005 kvs_azure]
  from T1 s1 have a1: "upsert 1700000005 ''u1'' [] store_seen = Inl OperationalError" by blast
  from T2 s2 have a2: "upsert 1700000005 ''u1'' [(C_etag, None)] store_seen = Inl OperationalError"
    by blast
  from s3 have "supplied kvs_azure \<noteq> []" by simp
  with T3 have a3: "\<exists>db' row'. upsert 1700000005 ''u1'' kvs_azure store_seen = Inr db'
          \<and> pages db' ''u1'' = Some row' \<and> r_last_seen row' = Some 1700000005" by blast
  show ?thesis by (intro conjI pg ls s1 a1 s2 a2 s3 a3)
qed

section \<open>What the analyzers collect\<close>

lemma map_filter_Cons:
  "List.map_filter f (x # xs) = (case f x of None \<Rightarrow> List.map_filter f xs
                                 | Some y \<Rightarrow> y # List.map_filter f xs)"
  by (simp add: List.map_filter_def split: option.splits)

lemma map_filter_append: "List.map_filter f (xs @ ys) = List.map_filter f xs @ List.map_filter f ys"
  by (simp add: List.map_filter_def)

lemma snd_paddle_line_step:
  "snd (paddle_line_step l acc) = snd acc @ (case text_score l of None \<Rightarrow> [] | Some s \<Rightarrow> [s])"
  by (cases l) (auto simp: paddle_line_step_def text_score_def)

lemma fold_paddle_line_step:
  "snd (fold paddle_line_step ls acc) = snd acc @ List.map_filter text_score ls"
proof (induction ls arbitrary: acc)
  case Nil
  show ?case by (simp add: List.map_filter_def)
next
  case (Cons l ls)
  show ?case
    by (simp add: Cons snd_paddle_line_step map_filter_Cons split: option.splits)
qed

lemma fold_paddle_blocks:
  "snd (fold (\<lambda>block acc. fold paddle_line_step (case block of None \<Rightarrow> [] | Some ls \<Rightarrow> ls) acc) bs acc)
     = snd acc @ List.map_filter text_score (concat (map or_empty bs))"
proof (induction bs arbitrary: acc)
  case Nil
  show ?case by (simp add: List.map_filter_def)
next
  case (Cons blk bs)
  show ?case
    by (cases blk) (simp_all add: Cons fold_paddle_line_step or_empty_def map_filter_append)
qed

lemma paddle_collect_scores: "snd (paddle_collect result) = paddle_text_scores result"
  by (cases result)
    (simp_all add: paddle_collect_def paddle_text_scores_def paddle_lines_def fold_paddle_blocks
      or_empty_def List.map_filter_def)

lemma snd_azure_line_step:
  "snd (azure_line_step l acc) = snd acc @ List.map_filter (\<lambda>w. w) (or_empty (ln_words l))"
  by (simp add: azure_line_step_def Let_def)

lemma fold_azure_line_step:
  "snd (fold azure_line_step ls acc) =
     snd acc @ concat (map (\<lambda>line. List.map_filter (\<lambda>w. w) (or_empty (ln_words line))) ls)"
proof (induction ls arbitrary: acc)
  case Nil
  show ?case by simp
next
  case (Cons l ls)
  show ?case by (simp add: Cons snd_azure_line_step)
qed

lemma fold_azure_blocks:
  "snd (fold (\<lambda>blk acc. fold azure_line_step (or_empty blk) acc) bs acc) =
     snd acc @ concat (map (\<lambda>line. List.map_filter (\<lambda>w. w) (or_empty (ln_words line)))
                         (concat (map or_empty bs)))"
proof (induction bs arbitrary: acc)
  case Nil
  show ?case by simp
next
  case (Cons blk bs)
  show ?case by (simp add: Cons fold_azure_line_step)
qed

lemma azure_collect_confs: "snd (azure_collect data) = azure_word_confs data"
  by (simp add: azure_collect_def azure_word_confs_def azure_lines_def fold_azure_blocks)

section \<open>The confidence an analyzer returns\<close>

text \<open>
  C8, as amended. When the detector returns, \<open>PaddleClient.run\<close> returns as confidence the
  floating-point mean, \<open>sum(confs)/len(confs)\<close> in float arithmetic, of the scores of the
  detector's lines whose text is not empty, and 0 when there is no such line.
  \<open>AzureVisionClient.run\<close> returns the floating-point mean of the confidences that the words
  of the response carry when there is at least one; otherwise it returns the float 0.9 when
  the extracted text is not empty and 0 when it is. The floating-point mean is the float sum
  of the list divided in float arithmetic by its length.
\<close>

theorem analyzer_confidence:
  "(paddle_ocr E b = Inr result \<longrightarrow>
      (\<exists>ocr. PaddleClient_run E b = Inr ocr
         \<and> confidence ocr = (if paddle_text_scores result = [] then 0
                             else float_mean E (paddle_text_scores result))))
   \<and> (azure_post E b = Inr data \<longrightarrow>
      (\<exists>ocr. AzureVisionClient_run E b = Inr ocr
         \<and> confidence ocr = (if azure_word_confs data \<noteq> [] then float_mean E (azure_word_confs data)
                             else if ocr_text ocr \<noteq> [] then float_0_9 else 0)))
   \<and> float_mean E confs = float_div E (float_sum E confs) (real (length confs))"
  by (simp add: PaddleClient_run_def AzureVisionClient_run_def paddle_text_def azure_text_def
      paddle_collect_scores azure_collect_confs float_mean_def Let_def)

lemma azure_no_conf_eval:
  "azure_text E azure_no_conf
     = \<lparr>ocr_text = [97, 98, 99], confidence = float_0_9, model = ''azure''\<rparr>"
  by (simp add: azure_text_def azure_collect_def azure_line_step_def azure_no_conf_def or_empty_def
      py_strip_def py_isspace_def Let_def List.map_filter_def)

lemma float_mean_fixed:
  "float_mean (env_fixed pr ad) [x] = x"
  "float_mean (env_fixed pr ad) [x, y] = (x + y) / 2"
  by (simp_all add: float_mean_def env_fixed_def)

text \<open>
  C8 as stated fails: on a response with one line of text whose words carry no confidence,
  the azure analyzer returns 0.9, which is not the mean of any reported confidence, and text
  was detected; on a result of two lines with scores 0.25 and 0.75 of which the first has
  empty text, the paddle analyzer returns 0.75, not the mean 0.5 of the reported scores.
\<close>

theorem analyzer_confidence_counterexample:
  "AzureVisionClient_run (env_fixed paddle_two azure_no_conf) ''s1''
      = Inr \<lparr>ocr_text = [97, 98, 99], confidence = float_0_9, model = ''azure''\<rparr>
   \<and> azure_word_confs azure_no_conf = []
   \<and> confidence \<lparr>ocr_text = [97, 98, 99], confidence = float_0_9, model = ''azure''\<rparr>
       \<noteq> spec_confidence (azure_word_confs azure_no_conf)
   \<and> PaddleClient_run (env_fixed paddle_two azure_no_conf) ''s1''
      = Inr \<lparr>ocr_text = [97, 98, 99], confidence = 3 / 4, model = ''paddle''\<rparr>
   \<and> paddle_scores paddle_two = [1 / 4, 3 / 4]
   \<and> confidence \<lparr>ocr_text = [97, 98, 99], confidence = 3 / 4, model = ''paddle''\<rparr>
       \<noteq> spec_confidence (paddle_scores paddle_two)"
proof -
  have w: "azure_word_confs azure_no_conf = []"
    by (simp add: azure_word_confs_def azure_lines_def azure_no_conf_def or_empty_def
        map_filter_simps)
  have p: "azure_post (env_fixed paddle_two azure_no_conf) ''s1'' = Inr azure_no_conf"
    "paddle_ocr (env_fixed paddle_two azure_no_conf) ''s1'' = Inr paddle_two"
    by (simp_all add: env_fixed_def)
  have r: "AzureVisionClient_run (env_fixed paddle_two azure_no_conf) ''s1''
      = Inr \<lparr>ocr_text = [97, 98, 99], confidence = float_0_9, model = ''azure''\<rparr>"
    using p(1) by (simp add: AzureVisionClient_run_def azure_no_conf_eval)
  have s: "paddle_scores paddle_two = [1 / 4, 3 / 4]"
    by (simp add: paddle_scores_def paddle_lines_def paddle_two_def or_empty_def
        map_filter_simps)
  have c: "paddle_collect paddle_two = ([[97, 98, 99]], [3 / 4])"
    by (simp add: paddle_collect_def paddle_line_step_def paddle_two_def)
  have q: "PaddleClient_run (env_fixed paddle_two azure_no_conf) ''s1''
      = Inr \<lparr>ocr_text = [97, 98, 99], confidence = 3 / 4, model = ''paddle''\<rparr>"
    using p(2) by (simp add: PaddleClient_run_def paddle_text_def c float_mean_fixed py_strip_def
        py_isspace_def)
  show ?thesis unfolding w r s q by (simp add: spec_confidence_def mean_def)
qed

theorem analyzer_confidence_witness:
  "paddle_ocr (env_fixed paddle_two azure_no_conf) ''s1'' = Inr paddle_two
   \<and> paddle_text_scores paddle_two = [3 / 4]
   \<and> map_sum (\<lambda>e. e) confidence (PaddleClient_run (env_fixed paddle_two azure_no_conf) ''s1'')
       = Inr (3 / 4)
   \<and> azure_post (env_fixed paddle_two azure_no_conf) ''s1'' = Inr azure_no_conf
   \<and> map_sum (\<lambda>e. e) confidence (AzureVisionClient_run (env_fixed paddle_two azure_no_conf) ''s1'')
       = Inr float_0_9
   \<and> paddle_ocr (env_fixed paddle_pair (azure_abc float_0_3)) ''s1'' = Inr paddle_pair
   \<and> paddle_text_scores paddle_pair = [1 / 4, 3 / 4]
   \<and> map_sum (\<lambda>e. e) confidence
        (PaddleClient_run (env_fixed paddle_pair (azure_abc float_0_3)) ''s1'') = Inr (1 / 2)
   \<and> azure_post (env_fixed paddle_pair (azure_abc float_0_3)) ''s1'' = Inr (azure_abc float_0_3)
   \<and> azure_word_confs (azure_abc float_0_3) = [float_0_3]
   \<and> map_sum (\<lambda>e. e) confidence
        (AzureVisionClient_run (env_fixed paddle_pair (azure_abc float_0_3)) ''s1'')
       = Inr float_0_3"
proof -
  let ?E = "env_fixed paddle_two azure_no_conf"
  let ?F = "env_fixed paddle_pair (azure_abc float_0_3)"
  have p: "paddle_ocr ?E ''s1'' = Inr paddle_two" "azure_post ?E ''s1'' = Inr azure_no_conf"
    "paddle_ocr ?F ''s1'' = Inr paddle_pair" "azure_post ?F ''s1'' = Inr (azure_abc float_0_3)"
    by (simp_all add: env_fixed_def)
  have s: "paddle_text_scores paddle_two = [3 / 4]" "paddle_text_scores paddle_pair = [1 / 4, 3 / 4]"
    by (simp_all add: paddle_text_scores_def paddle_lines_def paddle_two_def paddle_pair_def
        or_empty_def map_filter_simps text_score_def)
  have w: "azure_word_confs azure_no_conf = []" "azure_word_confs (azure_abc float_0_3) = [float_0_3]"
    by (simp_all add: azure_word_confs_def azure_lines_def azure_no_conf_def azure_abc_def
        or_empty_def map_filter_simps)
  have t: "ocr_text (azure_text ?E azure_no_conf) \<noteq> []" by (simp add: azure_no_conf_eval)
  have t': "AzureVisionClient_run ?E ''s1'' = Inr (azure_text ?E azure_no_conf)"
    using p(2) by (simp add: AzureVisionClient_run_def)
  note T = analyzer_confidence [of ?E "''s1''" paddle_two azure_no_conf "[]"]
  from T p obtain o1 where o1: "PaddleClient_run ?E ''s1'' = Inr o1"
    "confidence o1 = (if paddle_text_scores paddle_two = [] then 0
                      else float_mean ?E (paddle_text_scores paddle_two))" by blast
  from T p obtain o2 where o2: "AzureVisionClient_run ?E ''s1'' = Inr o2"
    "confidence o2 = (if azure_word_confs azure_no_conf \<noteq> []
                      then float_mean ?E (azure_word_confs azure_no_conf)
                      else if ocr_text o2 \<noteq> [] then float_0_9 else 0)" by blast
  from o2(1) t t' have "ocr_text o2 \<noteq> []" by simp
  with o1 o2 s w
  have a: "map_sum (\<lambda>e. e) confidence (PaddleClient_run ?E ''s1'') = Inr (3 / 4)"
    "map_sum (\<lambda>e. e) confidence (AzureVisionClient_run ?E ''s1'') = Inr float_0_9"
    by (simp_all add: float_mean_fixed)
  note T2 = analyzer_confidence [of ?F "''s1''" paddle_pair "azure_abc float_0_3" "[]"]
  from T2 p obtain o3 where o3: "PaddleClient_run ?F ''s1'' = Inr o3"
    "confidence o3 = (if paddle_text_scores paddle_pair = [] then 0
                      else float_mean ?F (paddle_text_scores paddle_pair))" by blast
  from T2 p obtain o4 where o4: "AzureVisionClient_run ?F ''s1'' = Inr o4"
    "confidence o4 = (if azure_word_confs (azure_abc float_0_3) \<noteq> []
                      then float_mean ?F (azure_word_confs (azure_abc float_0_3))
                      else if ocr_text o4 \<noteq> [] then float_0_9 else 0)" by blast
  from o3 o4 s w
  have b: "map_sum (\<lambda>e. e) confidence (PaddleClient_run ?F ''s1'') = Inr (1 / 2)"
    "map_sum (\<lambda>e. e) confidence (AzureVisionClient_run ?F ''s1'') = Inr float_0_3"
    by (simp_all add: float_mean_fixed)
  from p s w a b show ?thesis by simp
qed

end
